theory Spec2Isabelle
  imports Complex_Main "HOL-Library.Sublist"
begin

section \<open>Configuration and errors\<close>

text \<open>
  The command line of \<^verbatim>\<open>train.py\<close> (lines 28-75). Python integers are \<open>int\<close>,
  Python floats are idealised as \<open>real\<close>.
\<close>

record args =
  save_dir :: string
  save_interval :: int
  load_params :: bool
  nr_logistic_mix :: int
  resnet_nonlinearity :: string
  learning_rate :: real
  lr_decay :: real
  batch_size :: int
  init_batch_size :: int
  dropout_p :: real
  max_epochs :: int
  nr_gpu :: int
  polyak_decay :: real
  num_samples :: int

text \<open>The defaults of the command line (lines 30-74).\<close>

definition default_args :: args where
  "default_args = \<lparr>save_dir = ''data'', save_interval = 20, load_params = False,
     nr_logistic_mix = 10, resnet_nonlinearity = ''concat_elu'', learning_rate = 0.001,
     lr_decay = 0.999995, batch_size = 16, init_batch_size = 16, dropout_p = 0.5,
     max_epochs = 5000, nr_gpu = 1, polyak_decay = 0.9995, num_samples = 1\<rparr>"

text \<open>Line 91: \<^verbatim>\<open>obs_shape = (32, 32, 3)\<close>.\<close>

definition obs_shape :: "nat list" where
  "obs_shape = [32, 32, 3]"

text \<open>The exceptions the script and the numpy calls it makes can raise.\<close>

datatype error = IndexError | ValueError | ZeroDivisionError | StopIteration | FileNotFoundError
  | ModelError | RuntimeError

text \<open>Sequencing of fallible steps: the first exception ends the computation.\<close>

definition and_then :: "'e + 'a \<Rightarrow> ('a \<Rightarrow> 'e + 'b) \<Rightarrow> 'e + 'b" where
  "and_then m f = (case m of Inl e \<Rightarrow> Inl e | Inr a \<Rightarrow> f a)"

text \<open>A Python \<^verbatim>\<open>for\<close> loop over a list, with the loop state passed along.\<close>

fun for_each :: "('i \<Rightarrow> 'st \<Rightarrow> 'e + 'st) \<Rightarrow> 'i list \<Rightarrow> 'st \<Rightarrow> 'e + 'st" where
  "for_each body [] st = Inr st"
| "for_each body (i # rest) st =
     (case body i st of Inl e \<Rightarrow> Inl e | Inr st' \<Rightarrow> for_each body rest st')"

text \<open>Python list indexing with a non-negative index.\<close>

definition py_get :: "'a list \<Rightarrow> nat \<Rightarrow> error + 'a" where
  "py_get xs i = (if i < length xs then Inr (xs ! i) else Inl IndexError)"

section \<open>Adding the towers' losses and gradients (lines 138-151)\<close>

text \<open>
  After the loop of lines 121-136 the script holds three Python lists with one entry per
  device: \<^verbatim>\<open>loss_gen\<close>, \<^verbatim>\<open>loss_gen_test\<close> and \<^verbatim>\<open>grads\<close> (a list of gradient
  tensors per device, in the order of \<^verbatim>\<open>all_params\<close>). Tensors are values of a type with
  an addition, TensorFlow's elementwise \<^verbatim>\<open>+\<close>; nothing is assumed about it, so the
  order of the additions is visible in the result.
\<close>

record ('l, 'g) towers =
  loss_gen :: "'l list"
  loss_gen_test :: "'l list"
  grads :: "'g list list"

text \<open>Line 145: \<^verbatim>\<open>grads[0][j] += grads[i][j]\<close>.\<close>

definition add_grad :: "nat \<Rightarrow> nat \<Rightarrow> ('l, 'g::plus) towers \<Rightarrow> error + ('l, 'g) towers" where
  "add_grad i j st =
     and_then (py_get (grads st) 0) (\<lambda>g0.
     and_then (py_get g0 j) (\<lambda>a.
     and_then (py_get (grads st) i) (\<lambda>gi.
     and_then (py_get gi j) (\<lambda>b.
       Inr (st\<lparr>grads := (grads st)[0 := g0[j := a + b]]\<rparr>)))))"

text \<open>Lines 142-145: the body of the loop over the devices \<open>i = 1, ..., nr_gpu - 1\<close>.\<close>

definition add_tower :: "nat \<Rightarrow> ('l::plus, 'g::plus) towers \<Rightarrow> error + ('l, 'g) towers" where
  "add_tower i st =
     and_then (py_get (loss_gen st) 0) (\<lambda>l0.
     and_then (py_get (loss_gen st) i) (\<lambda>li.
     and_then (py_get (loss_gen_test st) 0) (\<lambda>t0.
     and_then (py_get (loss_gen_test st) i) (\<lambda>ti.
     and_then (py_get (grads st) 0) (\<lambda>g0.
       for_each (add_grad i) [0..<length g0]
         (st\<lparr>loss_gen := (loss_gen st)[0 := l0 + li],
             loss_gen_test := (loss_gen_test st)[0 := t0 + ti]\<rparr>))))))"

text \<open>Lines 141-145: \<^verbatim>\<open>for i in range(1, args.nr_gpu)\<close>.\<close>

definition add_towers :: "args \<Rightarrow> ('l::plus, 'g::plus) towers \<Rightarrow> error + ('l, 'g) towers" where
  "add_towers a st = for_each add_tower [1..<nat (nr_gpu a)] st"

text \<open>
  What the rest of the graph reads afterwards: \<^verbatim>\<open>loss_gen[0]\<close> (line 150),
  \<^verbatim>\<open>loss_gen_test[0]\<close> (line 151) and \<^verbatim>\<open>grads[0]\<close> (line 147).
\<close>

definition aggregate :: "args \<Rightarrow> ('l::plus, 'g::plus) towers \<Rightarrow> error + ('l \<times> 'l \<times> 'g list)" where
  "aggregate a st =
     and_then (add_towers a st) (\<lambda>st'.
     and_then (py_get (grads st') 0) (\<lambda>g.
     and_then (py_get (loss_gen st') 0) (\<lambda>l.
     and_then (py_get (loss_gen_test st') 0) (\<lambda>t. Inr (l, t, g)))))"

text \<open>Lines 150-151, with the products in Python's left-to-right order.\<close>

definition bits_per_dim :: "args \<Rightarrow> real \<Rightarrow> real" where
  "bits_per_dim a l = l / real_of_int (nr_gpu a * batch_size a)"

definition bits_per_dim_test :: "args \<Rightarrow> real \<Rightarrow> real" where
  "bits_per_dim_test a l =
     l / (real_of_int (nr_gpu a) * ln 2 * real (prod_list obs_shape) * real_of_int (batch_size a))"

section \<open>The parameter store, the moving averages and the training operation\<close>

text \<open>
  A tensor is the list of its entries, so that its shape is the length of the list. The
  session holds the trainable variables (\<^verbatim>\<open>all_params\<close>, line 111), their shadow
  variables (\<^verbatim>\<open>ema_params\<close>, line 114), the optimizer's own variables and the state of
  the random number generator.
\<close>

type_synonym tensor = "real list"

record ('o, 'r) session =
  live :: "tensor list"
  shadow :: "tensor list"
  slots :: 'o
  rng :: 'r

text \<open>
  \<^verbatim>\<open>tf.train.ExponentialMovingAverage(decay).apply\<close> (lines 112-113) updates a shadow
  variable by \<^verbatim>\<open>shadow -= (1 - decay) * (shadow - variable)\<close>, entry by entry.
\<close>

definition assign_moving_average :: "real \<Rightarrow> real \<Rightarrow> real \<Rightarrow> real" where
  "assign_moving_average decay s v = s - (1 - decay) * (s - v)"

definition maintain_averages_op :: "real \<Rightarrow> tensor list \<Rightarrow> tensor list \<Rightarrow> tensor list" where
  "maintain_averages_op decay seen shadows =
     map2 (\<lambda>s v. map2 (assign_moving_average decay) s v) shadows seen"

text \<open>
  Line 147: \<^verbatim>\<open>optimizer = tf.group(nn.adam_updates(all_params, grads[0], lr=tf_lr,
  mom1=0.95, mom2=0.9995), maintain_averages_op)\<close>. The function \<^verbatim>\<open>adam_updates\<close> lives
  in \<^verbatim>\<open>pixel_cnn_pp.nn\<close> and is a parameter \<open>adam\<close> here: from the variables, the
  gradients, the learning rate, the two moment constants and its own variables it gives
  the new variables. \<^verbatim>\<open>tf.group\<close> does not order its two members, so the averaging
  of variable \<open>j\<close> may read it before or after Adam's assignment; \<open>late j\<close> says which.
\<close>

type_synonym 'o adam_updates =
  "tensor list \<Rightarrow> tensor list \<Rightarrow> real \<Rightarrow> real \<Rightarrow> real \<Rightarrow> 'o \<Rightarrow> tensor list \<times> 'o"

definition averaged_values :: "'o adam_updates \<Rightarrow> (nat \<Rightarrow> bool) \<Rightarrow> tensor list \<Rightarrow> real
    \<Rightarrow> ('o, 'r) session \<Rightarrow> tensor list" where
  "averaged_values adam late g rate s =
     map (\<lambda>j. if late j then fst (adam (live s) g rate 0.95 0.9995 (slots s)) ! j else live s ! j)
       [0..<length (live s)]"

definition optimizer :: "'o adam_updates \<Rightarrow> args \<Rightarrow> (nat \<Rightarrow> bool) \<Rightarrow> tensor list \<Rightarrow> real
    \<Rightarrow> ('o, 'r) session \<Rightarrow> ('o, 'r) session" where
  "optimizer adam a late g rate s =
     s\<lparr>live := fst (adam (live s) g rate 0.95 0.9995 (slots s)),
       shadow := maintain_averages_op (polyak_decay a) (averaged_values adam late g rate s) (shadow s),
       slots := snd (adam (live s) g rate 0.95 0.9995 (slots s))\<rparr>"

text \<open>A sequence of training operations; each comes with its schedule, gradients and rate.\<close>

fun optimizer_steps :: "'o adam_updates \<Rightarrow> args \<Rightarrow> ((nat \<Rightarrow> bool) \<times> tensor list \<times> real) list
    \<Rightarrow> ('o, 'r) session \<Rightarrow> ('o, 'r) session" where
  "optimizer_steps adam a [] s = s"
| "optimizer_steps adam a ((late, g, rate) # rest) s =
     optimizer_steps adam a rest (optimizer adam a late g rate s)"

text \<open>The values of the variables that the averaging read, one list per step.\<close>

fun averaged_history :: "'o adam_updates \<Rightarrow> args \<Rightarrow> ((nat \<Rightarrow> bool) \<times> tensor list \<times> real) list
    \<Rightarrow> ('o, 'r) session \<Rightarrow> tensor list list" where
  "averaged_history adam a [] s = []"
| "averaged_history adam a ((late, g, rate) # rest) s =
     averaged_values adam late g rate s # averaged_history adam a rest (optimizer adam a late g rate s)"

text \<open>
  TensorFlow variables keep their shape: the assumption on \<open>adam\<close> under which the
  claims about the store are stated.
\<close>

definition keeps_shapes :: "'o adam_updates \<Rightarrow> bool" where
  "keeps_shapes adam =
     (\<forall>p g rate m1 m2 s. map length (fst (adam p g rate m1 m2 s)) = map length p)"

text \<open>The shadow variables mirror the variables in number and in shape.\<close>

definition mirrors :: "('o, 'r) session \<Rightarrow> bool" where
  "mirrors s = (map length (shadow s) = map length (live s))"

text \<open>
  The specification's ``decay-weighted history'' of the values \<open>v\<^sub>0, ..., v\<^sub>N\<^sub>-\<^sub>1\<close> read in
  \<open>N\<close> steps: their mean with the weights \<open>decay ^ (N - 1 - k)\<close>, the latest value
  weighing most.
\<close>

definition decay_weighted_history :: "real \<Rightarrow> real list \<Rightarrow> real" where
  "decay_weighted_history d vs =
     (\<Sum>k\<leftarrow>[0..<length vs]. d ^ (length vs - 1 - k) * vs ! k)
       / (\<Sum>k\<leftarrow>[0..<length vs]. d ^ (length vs - 1 - k))"

section \<open>The towers of the graph (lines 116-136)\<close>

text \<open>
  The network (\<^verbatim>\<open>pixel_cnn_pp.model.model_spec\<close>), the loss and the sampling function
  (\<^verbatim>\<open>pixel_cnn_pp.nn\<close>) are parameters: the network maps the values of the variables,
  an input and a dropout probability to the parameters of a distribution; sampling
  threads the state of the random number generator.
\<close>

record ('x, 'd, 'r) net =
  model_spec :: "tensor list \<Rightarrow> 'x \<Rightarrow> real \<Rightarrow> 'd"
  loss_fun :: "'x \<Rightarrow> 'd \<Rightarrow> real"
  sample_from_discretized_mix_logistic :: "'d \<Rightarrow> int \<Rightarrow> 'r \<Rightarrow> 'x \<times> 'r"

text \<open>The keyword argument \<^verbatim>\<open>ema\<close> of a call of the model: \<^verbatim>\<open>None\<close> or the averager.\<close>

datatype ema_arg = Ema_None | Ema_Averager

text \<open>
  Modelled from the spec: the variable lookup inside the model function
  (\<^verbatim>\<open>pixel_cnn_pp.nn\<close>, not part of the source at hand). A call with \<^verbatim>\<open>ema=None\<close>
  reads the variables themselves, a call with \<^verbatim>\<open>ema=ema\<close> reads their shadow
  variables (the specification's train mode and eval mode).
\<close>

definition params_read :: "ema_arg \<Rightarrow> ('o, 'r) session \<Rightarrow> tensor list" where
  "params_read e s = (case e of Ema_None \<Rightarrow> live s | Ema_Averager \<Rightarrow> shadow s)"

text \<open>A call \<^verbatim>\<open>model(x, h, ema=e, dropout_p=p, **model_opt)\<close>; \<^verbatim>\<open>h\<close> is always \<^verbatim>\<open>None\<close>.\<close>

definition model :: "('x, 'd, 'r) net \<Rightarrow> ('o, 'r) session \<Rightarrow> 'x \<Rightarrow> ema_arg \<Rightarrow> real \<Rightarrow> 'd" where
  "model n s x e p = model_spec n (params_read e s) x p"

text \<open>Lines 124-125 and 131-132: the training loss and the test loss of a tower.\<close>

definition tower_loss_gen :: "('x, 'd, 'r) net \<Rightarrow> args \<Rightarrow> 'x \<Rightarrow> ('o, 'r) session \<Rightarrow> real" where
  "tower_loss_gen n a x s = loss_fun n x (model n s x Ema_None (dropout_p a))"

definition tower_loss_gen_test :: "('x, 'd, 'r) net \<Rightarrow> args \<Rightarrow> 'x \<Rightarrow> ('o, 'r) session \<Rightarrow> real" where
  "tower_loss_gen_test n a x s = loss_fun n x (model n s x Ema_Averager 0)"

text \<open>Lines 135-136: the sampling node of a tower, evaluated on the array fed for \<^verbatim>\<open>xs[i]\<close>.\<close>

definition new_x_gen :: "('x, 'd, 'r) net \<Rightarrow> args \<Rightarrow> 'x \<Rightarrow> ('o, 'r) session
    \<Rightarrow> error + ('x \<times> ('o, 'r) session)" where
  "new_x_gen n a x s =
     (let out = model n s x Ema_None 0;
          drawn = sample_from_discretized_mix_logistic n out (nr_logistic_mix a) (rng s)
      in Inr (fst drawn, s\<lparr>rng := snd drawn\<rparr>))"

section \<open>Sampling from the model (lines 153-161)\<close>

text \<open>
  An image is indexed by row, column and channel; an array of images by the position in
  the batch first. The shape \<^verbatim>\<open>(batch_size,) + obs_shape\<close> is not part of the value.
\<close>

type_synonym 'v image = "nat \<Rightarrow> nat \<Rightarrow> nat \<Rightarrow> 'v"

type_synonym 'v array4 = "nat \<Rightarrow> 'v image"

definition np_zeros :: "'v::zero array4" where
  "np_zeros = (\<lambda>b y x c. 0)"

text \<open>Line 160: \<^verbatim>\<open>x_gen[i][:,yi,xi,:] = new_x_gen_np[i][:,yi,xi,:]\<close>.\<close>

definition assign_pixel :: "nat \<Rightarrow> nat \<Rightarrow> 'v array4 \<Rightarrow> 'v array4 \<Rightarrow> 'v array4" where
  "assign_pixel yi xi new old = (\<lambda>b y x c. if y = yi \<and> x = xi then new b y x c else old b y x c)"

text \<open>
  \<^verbatim>\<open>sess.run(new_x_gen, feed)\<close>: the sampling node of every tower is evaluated on the
  array fed to it. A node is any function that, from the fed array and the session, fails
  or gives the sampled array and the new session.
\<close>

type_synonym ('v, 's) node = "'v array4 \<Rightarrow> 's \<Rightarrow> error + ('v array4 \<times> 's)"

fun sess_run :: "('v, 's) node \<Rightarrow> 'v array4 list \<Rightarrow> 's \<Rightarrow> error + ('v array4 list \<times> 's)" where
  "sess_run node [] s = Inr ([], s)"
| "sess_run node (x # xs) s =
     (case node x s of Inl e \<Rightarrow> Inl e
      | Inr (v, s1) \<Rightarrow>
          (case sess_run node xs s1 of Inl e \<Rightarrow> Inl e | Inr (vs, s2) \<Rightarrow> Inr (v # vs, s2)))"

text \<open>
  The state of the two loops. The field \<open>visits\<close> is not in the source: it records, for
  every pass through the loop body, the position, the session and the arrays that
  \<^verbatim>\<open>sess.run\<close> was given, and the arrays and the session that it returned.
\<close>

record ('v, 's) visit =
  row :: nat
  col :: nat
  fed :: "'v array4 list"
  sess_before :: 's
  returned :: "'v array4 list"
  sess_after :: 's

record ('v, 's) sampler =
  x_gen :: "'v array4 list"
  sess :: 's
  visits :: "('v, 's) visit list"

text \<open>Lines 158-160: the body of the inner loop.\<close>

definition sample_pixel :: "('v, 's) node \<Rightarrow> nat \<Rightarrow> nat \<Rightarrow> nat \<Rightarrow> ('v, 's) sampler
    \<Rightarrow> error + ('v, 's) sampler" where
  "sample_pixel node n yi xi st =
     (case sess_run node (map (\<lambda>i. x_gen st ! i) [0..<n]) (sess st) of
        Inl e \<Rightarrow> Inl e
      | Inr (new_x_gen_np, s') \<Rightarrow>
          Inr \<lparr>x_gen = map (\<lambda>i. assign_pixel yi xi (new_x_gen_np ! i) (x_gen st ! i)) [0..<n],
               sess = s',
               visits = visits st @ [\<lparr>row = yi, col = xi,
                  fed = map (\<lambda>i. x_gen st ! i) [0..<n], sess_before = sess st,
                  returned = new_x_gen_np, sess_after = s'\<rparr>]\<rparr>)"

text \<open>Lines 156-160: the two loops, over an image of \<open>h\<close> rows and \<open>w\<close> columns.\<close>

definition sample_row :: "('v, 's) node \<Rightarrow> nat \<Rightarrow> nat \<Rightarrow> nat \<Rightarrow> ('v, 's) sampler
    \<Rightarrow> error + ('v, 's) sampler" where
  "sample_row node n w yi st = for_each (sample_pixel node n yi) [0..<w] st"

definition sample_loops :: "('v::zero, 's) node \<Rightarrow> nat \<Rightarrow> nat \<Rightarrow> nat \<Rightarrow> 's
    \<Rightarrow> error + ('v, 's) sampler" where
  "sample_loops node n h w s =
     for_each (sample_row node n w) [0..<h] \<lparr>x_gen = replicate n np_zeros, sess = s, visits = []\<rparr>"

text \<open>
  \<^verbatim>\<open>np.concatenate(arrays, axis=0)\<close>, the arrays given as the lists of their images;
  numpy refuses an empty list of arrays.
\<close>

definition np_concatenate :: "'i list list \<Rightarrow> error + 'i list" where
  "np_concatenate arrays = (if arrays = [] then Inl ValueError else Inr (concat arrays))"

text \<open>
  Lines 154-161. The result is the list of the generated images, \<open>batch_size\<close> from
  each device.
\<close>

definition sample_from_model :: "('v::zero, 's) node \<Rightarrow> args \<Rightarrow> 's \<Rightarrow> error + ('v image list \<times> 's)" where
  "sample_from_model node a s =
     (case sample_loops node (nat (nr_gpu a)) (obs_shape ! 0) (obs_shape ! 1) s of
        Inl e \<Rightarrow> Inl e
      | Inr st \<Rightarrow>
          (case np_concatenate (map (\<lambda>g. map g [0..<nat (batch_size a)]) (x_gen st)) of
             Inl e \<Rightarrow> Inl e
           | Inr images \<Rightarrow> Inr (images, sess st)))"

text \<open>Raster order on positions: rows from the top, columns from the left within a row.\<close>

definition raster_less :: "nat \<times> nat \<Rightarrow> nat \<times> nat \<Rightarrow> bool" where
  "raster_less p q = (fst p < fst q \<or> (fst p = fst q \<and> snd p < snd q))"

definition position :: "('v, 's) visit \<Rightarrow> nat \<times> nat" where
  "position v = (row v, col v)"

text \<open>The arrays as a visit leaves them: its position assigned from what was returned.\<close>

definition written :: "nat \<Rightarrow> ('v, 's) visit \<Rightarrow> 'v array4 list" where
  "written n v = map (\<lambda>i. assign_pixel (row v) (col v) (returned v ! i) (fed v ! i)) [0..<n]"

section \<open>Feeding the data (lines 167-176)\<close>

text \<open>
  A batch of the data stream is the list of its images, an image the list of its
  \<^verbatim>\<open>uint8\<close> entries. \<^verbatim>\<open>np.split(x, n)\<close> cuts along the first axis into \<open>n\<close> equal
  parts and raises when that is not possible.
\<close>

definition np_split :: "'a list \<Rightarrow> int \<Rightarrow> error + 'a list list" where
  "np_split x n =
     (if n = 0 then Inl ZeroDivisionError
      else if n < 0 \<or> length x mod nat n \<noteq> 0 then Inl ValueError
      else Inr (map (\<lambda>i. take (length x div nat n) (drop (i * (length x div nat n)) x))
                  [0..<nat n]))"

datatype feed_dict = Feed_x_init "real list list" | Feed_xs "real list list list"

text \<open>Line 170: the entries are scaled from \<open>[0, 255]\<close> to \<open>[-1, 1]\<close>.\<close>

definition scaled :: "int list list \<Rightarrow> real list list" where
  "scaled data = map (map (\<lambda>v. (real_of_int v - 127.5) / 127.5)) data"

definition make_feed_dict :: "args \<Rightarrow> int list list \<Rightarrow> bool \<Rightarrow> error + feed_dict" where
  "make_feed_dict a data init =
     (let x = scaled data
      in if init then Inr (Feed_x_init x)
         else and_then (np_split x (nr_gpu a)) (\<lambda>parts. Inr (Feed_xs parts)))"

section \<open>The training loop (lines 178-229)\<close>

text \<open>
  What a \<^verbatim>\<open>sess.run\<close>, \<^verbatim>\<open>saver.restore\<close> call does inside TensorFlow is not in the
  script's hands; each is a parameter that, from the session, fails or gives the new
  session (and the fetched value).
\<close>

record ('s, 'v) session_ops =
  run_initializer :: "'s \<Rightarrow> error + 's"
  saver_restore :: "string \<Rightarrow> 's \<Rightarrow> error + 's"
  run_init_pass :: "feed_dict \<Rightarrow> 's \<Rightarrow> error + 's"
  run_train :: "feed_dict \<Rightarrow> real \<Rightarrow> 's \<Rightarrow> error + (real \<times> 's)"
  run_new_x_gen :: "('v, 's) node"

text \<open>
  What the script finds around it. \<open>graph_build\<close> stands for an exception raised by
  TensorFlow or by the model function while the graph is put together (lines 95-136);
  \<open>path_exists\<close> and \<open>makedirs\<close> are the file system as \<^verbatim>\<open>os.path.exists\<close> and
  \<^verbatim>\<open>os.makedirs\<close> find it.

  Lines 191 and 228 end in \<^verbatim>\<open>'/params_' + 'Montezuma + '.ckpt'\<close> and line 229 in
  \<^verbatim>\<open>'/test_bpd_' + 'Montezuma + '.npz'\<close>: as printed, the last string literal of each
  is not terminated. What follows \<^verbatim>\<open>'/params_' +\<close> and \<^verbatim>\<open>'/test_bpd_' +\<close> is
  therefore not read off the source: it is a string of the environment, \<open>params_tail\<close>
  and \<open>test_bpd_tail\<close>, the same at every use, and the theorems hold whatever it is.
\<close>

record env =
  graph_build :: "args \<Rightarrow> error option"
  path_exists :: "string \<Rightarrow> bool"
  makedirs :: "string \<Rightarrow> error option"
  params_tail :: string
  test_bpd_tail :: string

text \<open>The empty path does not exist, and \<^verbatim>\<open>os.makedirs('')\<close> raises.\<close>

definition os_path_exists :: "env \<Rightarrow> string \<Rightarrow> bool" where
  "os_path_exists ev p = (p \<noteq> [] \<and> path_exists ev p)"

definition os_makedirs :: "env \<Rightarrow> string \<Rightarrow> error option" where
  "os_makedirs ev p = (if p = [] then Some FileNotFoundError else makedirs ev p)"

text \<open>
  The script's steps are recorded as events, in the order in which they are started; the
  events of the file writes are the writes.
\<close>

datatype 'v event =
    Makedirs string
  | Open_session
  | Run_initializer
  | Saver_restore string
  | Run_init_pass feed_dict
  | Run_train feed_dict real
  | Report nat "real option"
  | Savefig string "'v image list"
  | Savez string "'v image list list"
  | Saver_save string

record ('s, 'v) world =
  w_sess :: 's
  w_lr :: real
  w_losses :: "real list"
  w_sample_x :: "'v image list list"
  w_trace :: "'v event list"

type_synonym ('s, 'v) outcome = "(error \<times> ('s, 'v) world) + ('s, 'v) world"

definition log_event :: "'v event \<Rightarrow> ('s, 'v) world \<Rightarrow> ('s, 'v) world" where
  "log_event ev w = w\<lparr>w_trace := w_trace w @ [ev]\<rparr>"

text \<open>A call into the session: the event is recorded, then the call succeeds or raises.\<close>

definition session_call :: "'v event \<Rightarrow> ('s \<Rightarrow> error + 's) \<Rightarrow> ('s, 'v) world \<Rightarrow> ('s, 'v) outcome" where
  "session_call ev f w =
     (case f (w_sess w) of
        Inl e \<Rightarrow> Inl (e, log_event ev w)
      | Inr s' \<Rightarrow> Inr ((log_event ev w)\<lparr>w_sess := s'\<rparr>))"

text \<open>The file names; \<^verbatim>\<open>%d\<close> prints the epoch in decimal.\<close>

definition digit_char :: "nat \<Rightarrow> char" where
  "digit_char d = ''0123456789'' ! d"

fun decimal :: "nat \<Rightarrow> string" where
  "decimal n = (if n < 10 then [digit_char n] else decimal (n div 10) @ [digit_char (n mod 10)])"

declare decimal.simps [simp del]

definition os_path_join :: "string \<Rightarrow> string \<Rightarrow> string" where
  "os_path_join p q =
     (if q \<noteq> [] \<and> hd q = CHR ''/'' then q
      else if p = [] \<or> last p = CHR ''/'' then p @ q
      else p @ ''/'' @ q)"

definition ckpt_file :: "env \<Rightarrow> args \<Rightarrow> string" where
  "ckpt_file ev a = save_dir a @ ''/params_'' @ params_tail ev"

definition sample_png :: "args \<Rightarrow> nat \<Rightarrow> string" where
  "sample_png a epoch = os_path_join (save_dir a) (''Montezuma_sample'' @ decimal epoch @ ''.png'')"

definition sample_npz :: "args \<Rightarrow> nat \<Rightarrow> string" where
  "sample_npz a epoch = os_path_join (save_dir a) (''Montezuma_sample'' @ decimal epoch @ ''.npz'')"

definition test_bpd_file :: "env \<Rightarrow> args \<Rightarrow> string" where
  "test_bpd_file ev a = save_dir a @ ''/test_bpd_'' @ test_bpd_tail ev"

text \<open>Lines 188-199: the block of epoch 0; it returns what is left of the epoch's iterator.\<close>

definition init_block :: "env \<Rightarrow> ('s, 'v) session_ops \<Rightarrow> args \<Rightarrow> int list list list \<Rightarrow> ('s, 'v) world
    \<Rightarrow> (error \<times> ('s, 'v) world) + (int list list list \<times> ('s, 'v) world)" where
  "init_block ev ops a iterator w =
     (if load_params a then
        (case session_call (Saver_restore (ckpt_file ev a)) (saver_restore ops (ckpt_file ev a)) w of
           Inl x \<Rightarrow> Inl x
         | Inr w1 \<Rightarrow> Inr (iterator, w1))
      else
        (case session_call Run_initializer (run_initializer ops) w of
           Inl x \<Rightarrow> Inl x
         | Inr w1 \<Rightarrow>
             (case iterator of
                [] \<Rightarrow> Inl (StopIteration, w1)
              | d # rest \<Rightarrow>
                  (case make_feed_dict a d True of
                     Inl e \<Rightarrow> Inl (e, w1)
                   | Inr feed \<Rightarrow>
                       (case session_call (Run_init_pass feed) (run_init_pass ops feed) w1 of
                          Inl x \<Rightarrow> Inl x
                        | Inr w2 \<Rightarrow> Inr (rest, w2))))))"

text \<open>Lines 204-209: the body of the loop over the batches of an epoch.\<close>

definition train_step :: "('s, 'v) session_ops \<Rightarrow> args \<Rightarrow> int list list \<Rightarrow> ('s, 'v) world
    \<Rightarrow> ('s, 'v) outcome" where
  "train_step ops a d w =
     (case make_feed_dict a d False of
        Inl e \<Rightarrow> Inl (e, w)
      | Inr feed \<Rightarrow>
          (let w1 = log_event (Run_train feed (w_lr w * lr_decay a)) (w\<lparr>w_lr := w_lr w * lr_decay a\<rparr>)
           in case run_train ops feed (w_lr w1) (w_sess w1) of
                Inl e \<Rightarrow> Inl (e, w1)
              | Inr (l, s') \<Rightarrow> Inr (w1\<lparr>w_sess := s', w_losses := w_losses w1 @ [l]\<rparr>)))"

text \<open>Line 210: the mean of no losses is numpy's \<^verbatim>\<open>nan\<close>, here \<open>None\<close>.\<close>

definition np_mean :: "real list \<Rightarrow> real option" where
  "np_mean xs = (if xs = [] then None else Some (sum_list xs / real (length xs)))"

text \<open>Lines 219-220: one more batch of samples.\<close>

definition draw_sample :: "('s, 'v::zero) session_ops \<Rightarrow> args \<Rightarrow> nat \<Rightarrow> ('s, 'v) world
    \<Rightarrow> ('s, 'v) outcome" where
  "draw_sample ops a i w =
     (case sample_from_model (run_new_x_gen ops) a (w_sess w) of
        Inl e \<Rightarrow> Inl (e, w)
      | Inr (images, s') \<Rightarrow> Inr (w\<lparr>w_sess := s', w_sample_x := w_sample_x w @ [images]\<rparr>))"

text \<open>Lines 217-229: the samples and the files written at a save epoch.\<close>

definition save_block :: "env \<Rightarrow> ('s, 'v::zero) session_ops \<Rightarrow> args \<Rightarrow> nat \<Rightarrow> ('s, 'v) world
    \<Rightarrow> ('s, 'v) outcome" where
  "save_block ev ops a epoch w =
     (case for_each (draw_sample ops a) [0..<nat (num_samples a)] (w\<lparr>w_sample_x := []\<rparr>) of
        Inl x \<Rightarrow> Inl x
      | Inr w1 \<Rightarrow>
          (case np_concatenate (w_sample_x w1) of
             Inl e \<Rightarrow> Inl (e, w1)
           | Inr sample_x \<Rightarrow>
               Inr (log_event (Savez (test_bpd_file ev a) [])
                   (log_event (Saver_save (ckpt_file ev a))
                   (log_event (Savez (sample_npz a epoch) [sample_x])
                   (log_event (Savefig (sample_png a epoch) (take 100 sample_x)) w1))))))"

text \<open>Lines 185-229: one epoch; \<open>stream epoch\<close> is what the epoch's iterator yields.\<close>

definition epoch_body :: "env \<Rightarrow> ('s, 'v::zero) session_ops \<Rightarrow> args \<Rightarrow> (nat \<Rightarrow> int list list list)
    \<Rightarrow> nat \<Rightarrow> ('s, 'v) world \<Rightarrow> ('s, 'v) outcome" where
  "epoch_body ev ops a stream epoch w =
     (case (if epoch = 0 then init_block ev ops a (stream epoch) w else Inr (stream epoch, w)) of
        Inl x \<Rightarrow> Inl x
      | Inr (iterator, w1) \<Rightarrow>
          (case for_each (train_step ops a) iterator (w1\<lparr>w_losses := []\<rparr>) of
             Inl x \<Rightarrow> Inl x
           | Inr w2 \<Rightarrow>
               (let w3 = log_event (Report epoch (np_mean (w_losses w2))) w2
                in if save_interval a = 0 then Inl (ZeroDivisionError, w3)
                   else if int epoch mod save_interval a = 0 then save_block ev ops a epoch w3
                   else Inr w3)))"

text \<open>
  The script as a whole. Building the graph comes first; with no device the list
  \<^verbatim>\<open>grads\<close> is empty at line 147. Then the directory is made if it is missing (lines
  179-180), the session is opened and the epochs run.
\<close>

definition graph_error :: "env \<Rightarrow> args \<Rightarrow> error option" where
  "graph_error ev a =
     (case graph_build ev a of Some e \<Rightarrow> Some e
      | None \<Rightarrow> if nr_gpu a \<le> 0 then Some IndexError else None)"

definition blank_world :: "args \<Rightarrow> 's \<Rightarrow> ('s, 'v) world" where
  "blank_world a s0 =
     \<lparr>w_sess = s0, w_lr = learning_rate a, w_losses = [], w_sample_x = [], w_trace = []\<rparr>"

definition prepare_dir :: "env \<Rightarrow> args \<Rightarrow> ('s, 'v) world \<Rightarrow> ('s, 'v) outcome" where
  "prepare_dir ev a w =
     (if os_path_exists ev (save_dir a) then Inr w
      else (case os_makedirs ev (save_dir a) of
              Some e \<Rightarrow> Inl (e, log_event (Makedirs (save_dir a)) w)
            | None \<Rightarrow> Inr (log_event (Makedirs (save_dir a)) w)))"

definition train_py :: "env \<Rightarrow> ('s, 'v::zero) session_ops \<Rightarrow> args \<Rightarrow> (nat \<Rightarrow> int list list list)
    \<Rightarrow> 's \<Rightarrow> ('s, 'v) outcome" where
  "train_py ev ops a stream s0 =
     (case graph_error ev a of
        Some e \<Rightarrow> Inl (e, blank_world a s0)
      | None \<Rightarrow>
          (case prepare_dir ev a (blank_world a s0) of
             Inl x \<Rightarrow> Inl x
           | Inr w \<Rightarrow> for_each (epoch_body ev ops a stream) [0..<nat (max_epochs a)]
                       (log_event Open_session w)))"

text \<open>The world at the end of a run, however it ended.\<close>

definition final_world :: "('s, 'v) outcome \<Rightarrow> ('s, 'v) world" where
  "final_world r = (case r of Inl (e, w) \<Rightarrow> w | Inr w \<Rightarrow> w)"

text \<open>The names of the files written, in the order of the writes.\<close>

fun written_files :: "'v event list \<Rightarrow> string list" where
  "written_files [] = []"
| "written_files (Savefig f img # evs) = f # written_files evs"
| "written_files (Savez f arrays # evs) = f # written_files evs"
| "written_files (Saver_save f # evs) = f # written_files evs"
| "written_files (ev # evs) = written_files evs"

section \<open>A session that records the calls it receives\<close>

text \<open>
  To say what the session is asked to do, any session is wrapped into one that keeps,
  beside the state of the session it wraps, the list of the calls it has answered, each
  with the arguments it was given. A call that raises leaves no record: the script does
  not get a session back from it. Sampling calls are passed on and not recorded.
\<close>

datatype call = Call_initializer | Call_restore string | Call_init_pass feed_dict
  | Call_train feed_dict real

definition recording :: "('s, 'v) session_ops \<Rightarrow> ('s \<times> call list, 'v) session_ops" where
  "recording ops =
     \<lparr>run_initializer = (\<lambda>(s, cs). case run_initializer ops s of
          Inl e \<Rightarrow> Inl e | Inr s' \<Rightarrow> Inr (s', cs @ [Call_initializer])),
      saver_restore = (\<lambda>f (s, cs). case saver_restore ops f s of
          Inl e \<Rightarrow> Inl e | Inr s' \<Rightarrow> Inr (s', cs @ [Call_restore f])),
      run_init_pass = (\<lambda>feed (s, cs). case run_init_pass ops feed s of
          Inl e \<Rightarrow> Inl e | Inr s' \<Rightarrow> Inr (s', cs @ [Call_init_pass feed])),
      run_train = (\<lambda>feed rate (s, cs). case run_train ops feed rate s of
          Inl e \<Rightarrow> Inl e | Inr (l, s') \<Rightarrow> Inr (l, (s', cs @ [Call_train feed rate]))),
      run_new_x_gen = (\<lambda>x (s, cs). case run_new_x_gen ops x s of
          Inl e \<Rightarrow> Inl e | Inr (v, s') \<Rightarrow> Inr (v, (s', cs)))\<rparr>"

text \<open>The calls recorded in a world.\<close>

definition calls :: "('s \<times> call list, 'v) world \<Rightarrow> call list" where
  "calls w = snd (w_sess w)"

text \<open>What a world over a recording session is without the record.\<close>

definition forget :: "('s \<times> call list, 'v) world \<Rightarrow> ('s, 'v) world" where
  "forget w = \<lparr>w_sess = fst (w_sess w), w_lr = w_lr w, w_losses = w_losses w,
     w_sample_x = w_sample_x w, w_trace = w_trace w\<rparr>"

definition forget_outcome :: "('s \<times> call list, 'v) outcome \<Rightarrow> ('s, 'v) outcome" where
  "forget_outcome r = (case r of Inl (e, w) \<Rightarrow> Inl (e, forget w) | Inr w \<Rightarrow> Inr (forget w))"

fun is_train_call :: "call \<Rightarrow> bool" where
  "is_train_call (Call_train feed rate) = True"
| "is_train_call c = False"

fun is_init_pass_call :: "call \<Rightarrow> bool" where
  "is_init_pass_call (Call_init_pass feed) = True"
| "is_init_pass_call c = False"

fun rates_received :: "call list \<Rightarrow> real list" where
  "rates_received [] = []"
| "rates_received (Call_train feed rate # cs) = rate # rates_received cs"
| "rates_received (c # cs) = rates_received cs"

section \<open>What the script asks of the session\<close>

text \<open>
  The calls of the block of epoch 0: the checkpoint is restored, or the variables are
  initialised and the init pass is run on the first batch of the first epoch.
\<close>

definition init_calls :: "env \<Rightarrow> args \<Rightarrow> (nat \<Rightarrow> int list list list) \<Rightarrow> call list" where
  "init_calls ev a stream =
     (if load_params a then [Call_restore (ckpt_file ev a)]
      else [Call_initializer, Call_init_pass (Feed_x_init (scaled (hd (stream 0))))])"

text \<open>
  The batches that are trained on in the epochs before epoch \<open>k\<close>, in their order: all
  batches of all these epochs, but for the first batch of epoch 0 when it went to the
  init pass.
\<close>

definition batches_before :: "args \<Rightarrow> (nat \<Rightarrow> int list list list) \<Rightarrow> nat \<Rightarrow> int list list list" where
  "batches_before a stream k =
     (if k = 0 then []
      else (if load_params a then stream 0 else tl (stream 0)) @ concat (map stream [1..<k]))"

text \<open>
  The training calls for a list of batches, the first of them being step \<open>m + 1\<close>: the
  batch split over the devices, and the initial rate times the decay factor to the power
  of the step.
\<close>

fun train_calls :: "args \<Rightarrow> nat \<Rightarrow> int list list list \<Rightarrow> call list" where
  "train_calls a m [] = []"
| "train_calls a m (d # ds) =
     Call_train (Feed_xs (map (\<lambda>i. take (length d div nat (nr_gpu a))
                                  (drop (i * (length d div nat (nr_gpu a))) (scaled d)))
                            [0..<nat (nr_gpu a)]))
       (learning_rate a * lr_decay a ^ Suc m)
     # train_calls a (Suc m) ds"

text \<open>The calls of a run of \<open>k\<close> epochs.\<close>

definition expected_calls :: "env \<Rightarrow> args \<Rightarrow> (nat \<Rightarrow> int list list list) \<Rightarrow> nat \<Rightarrow> call list" where
  "expected_calls ev a stream k =
     (if k = 0 then [] else init_calls ev a stream @ train_calls a 0 (batches_before a stream k))"

text \<open>
  At the start of epoch \<open>k\<close> the session has received the calls of \<open>k\<close> epochs, and the
  rate has been decayed once for every batch trained on.
\<close>

definition at_epoch :: "env \<Rightarrow> args \<Rightarrow> (nat \<Rightarrow> int list list list) \<Rightarrow> nat
    \<Rightarrow> ('s \<times> call list, 'v) world \<Rightarrow> bool" where
  "at_epoch ev a stream k w =
     (calls w = expected_calls ev a stream k
      \<and> w_lr w = learning_rate a * lr_decay a ^ length (batches_before a stream k))"

section \<open>Stand-ins used in the examples\<close>

text \<open>
  An optimizer for the examples: every entry of every variable moves by the rate.
\<close>

definition plain_descent :: "unit adam_updates" where
  "plain_descent p g rate m1 m2 sl = (map (map (\<lambda>x. x - rate)) p, sl)"

section \<open>The invariant of the sampling loops\<close>

text \<open>
  The state of the sampler when it is about to visit position \<open>(yi, xi)\<close> of an
  image with rows of \<open>w\<close> columns, on \<open>n\<close> devices: the rows above are done, the row
  \<open>yi\<close> is done as far as column \<open>xi\<close>; the position itself and everything after it
  is zero in every array; every logged visit lies before \<open>(yi, xi)\<close>, was fed arrays
  that were zero from its own position on, and what it wrote is still there.
\<close>

definition scanning :: "nat \<Rightarrow> nat \<Rightarrow> nat \<Rightarrow> nat \<Rightarrow> ('v::zero, 's) sampler \<Rightarrow> bool" where
  "scanning n w yi xi st =
     (length (x_gen st) = n
      \<and> map position (visits st) = concat (map (\<lambda>y. map (Pair y) [0..<w]) [0..<yi]) @ map (Pair yi) [0..<xi]
      \<and> (\<forall>i<n. \<forall>b y x c. \<not> raster_less (y, x) (yi, xi) \<longrightarrow> (x_gen st ! i) b y x c = 0)
      \<and> (\<forall>v\<in>set (visits st). raster_less (position v) (yi, xi)
            \<and> length (fed v) = n \<and> length (returned v) = n
            \<and> (\<forall>i<n. \<forall>b y x c. \<not> raster_less (y, x) (position v) \<longrightarrow> (fed v ! i) b y x c = 0)
            \<and> (\<forall>i<n. \<forall>b c. (x_gen st ! i) b (row v) (col v) c = (returned v ! i) b (row v) (col v) c)))"

text \<open>
  The log of the visits is the run of the node: every visit records one \<^verbatim>\<open>sess.run\<close>
  of the node, on the arrays and the session that the visit before it left (the zero
  arrays and the session \<open>s0\<close> for the first), and the state holds what the last visit
  left.
\<close>

definition linked :: "('v::zero, 's) node \<Rightarrow> nat \<Rightarrow> 's \<Rightarrow> ('v, 's) sampler \<Rightarrow> bool" where
  "linked node n s0 st =
     ((\<forall>v\<in>set (visits st). sess_run node (fed v) (sess_before v) = Inr (returned v, sess_after v))
      \<and> (\<forall>k. Suc k < length (visits st) \<longrightarrow>
             sess_before (visits st ! Suc k) = sess_after (visits st ! k)
             \<and> fed (visits st ! Suc k) = written n (visits st ! k))
      \<and> (visits st = [] \<longrightarrow> x_gen st = replicate n np_zeros \<and> sess st = s0)
      \<and> (visits st \<noteq> [] \<longrightarrow>
             fed (hd (visits st)) = replicate n np_zeros \<and> sess_before (hd (visits st)) = s0
             \<and> x_gen st = written n (last (visits st)) \<and> sess st = sess_after (last (visits st))))"

text \<open>
  A sampling node for the examples: it returns the array of ones and counts the calls.
\<close>

definition ones_node :: "(real, nat) node" where
  "ones_node x s = Inr ((\<lambda>b y x c. 1), Suc s)"

text \<open>
  A network for the examples that shows which variables it read: its output is the first
  entry of the first variable, and a sample is the array filled with that output.
\<close>

definition probe_net :: "(real array4, real, unit) net" where
  "probe_net = \<lparr>model_spec = (\<lambda>p x d. p ! 0 ! 0), loss_fun = (\<lambda>x d. 0),
     sample_from_discretized_mix_logistic = (\<lambda>d k r. ((\<lambda>b y x c. d), r))\<rparr>"

text \<open>
  A session whose variable is 1 and whose shadow variable is 2.
\<close>

definition probe_session :: "(unit, unit) session" where
  "probe_session = \<lparr>live = [[1]], shadow = [[2]], slots = (), rng = ()\<rparr>"

section \<open>Stand-ins for the runs of the examples\<close>

text \<open>
  A session in which every call succeeds: the training operation reports the loss 0,
  sampling returns the array it was fed.
\<close>

definition quiet_ops :: "(unit, real) session_ops" where
  "quiet_ops = \<lparr>run_initializer = Inr, saver_restore = (\<lambda>f. Inr), run_init_pass = (\<lambda>feed. Inr),
     run_train = (\<lambda>feed rate s. Inr (0, s)), run_new_x_gen = (\<lambda>x s. Inr (x, s))\<rparr>"

text \<open>
  Surroundings in which the graph is built, the directory is there, and the file names
  end as the dataset's name suggests.
\<close>

definition quiet_env :: env where
  "quiet_env = \<lparr>graph_build = (\<lambda>a. None), path_exists = (\<lambda>p. True), makedirs = (\<lambda>p. None),
     params_tail = ''Montezuma.ckpt'', test_bpd_tail = ''Montezuma.npz''\<rparr>"

text \<open>A data stream: every epoch yields two batches of one image of one entry.\<close>

definition tiny_stream :: "nat \<Rightarrow> int list list list" where
  "tiny_stream epoch = [[[0]], [[255]]]"

text \<open>The default configuration, for two epochs.\<close>

definition two_epochs :: args where
  "two_epochs = default_args\<lparr>max_epochs := 2\<rparr>"


text \<open>Two epochs, with samples written after each.\<close>

definition every_epoch :: args where
  "every_epoch = default_args\<lparr>max_epochs := 2, save_interval := 1\<rparr>"

text \<open>
  Two devices and batches of three images: the batch size is not divisible by the number
  of devices.
\<close>

definition uneven :: args where
  "uneven = default_args\<lparr>nr_gpu := 2, batch_size := 3, init_batch_size := 3, max_epochs := 1\<rparr>"

definition stream_of_three :: "nat \<Rightarrow> int list list list" where
  "stream_of_three epoch = [[[0], [0], [0]], [[255], [255], [255]]]"

section \<open>Basic facts about the control structure\<close>

lemma and_then_Inr [simp]: "and_then (Inr a) f = f a"
  by (simp add: and_then_def)

lemma and_then_Inl [simp]: "and_then (Inl e) f = Inl e"
  by (simp add: and_then_def)

lemma py_get_in_range [simp]: "i < length xs \<Longrightarrow> py_get xs i = Inr (xs ! i)"
  by (simp add: py_get_def)

lemma py_get_out_of_range [simp]: "\<not> i < length xs \<Longrightarrow> py_get xs i = Inl IndexError"
  by (simp add: py_get_def)

lemma for_each_append:
  "for_each body (xs @ ys) st =
     (case for_each body xs st of Inl e \<Rightarrow> Inl e | Inr st' \<Rightarrow> for_each body ys st')"
  by (induction xs arbitrary: st) (auto split: sum.splits)

lemma add_grad_ok:
  assumes "0 < i" "i < length (grads st)" "j < length (grads st ! 0)" "j < length (grads st ! i)"
  shows "add_grad i j st =
     Inr (st\<lparr>grads := (grads st)[0 := (grads st ! 0)[j := grads st ! 0 ! j + grads st ! i ! j]]\<rparr>)"
proof -
  have "0 < length (grads st)" using assms by linarith
  then show ?thesis using assms by (simp add: add_grad_def)
qed

lemma for_each_add_grad:
  assumes "0 < i" "i < length (grads st)"
    and "\<forall>j\<in>set js. j < length (grads st ! 0) \<and> j < length (grads st ! i)"
    and "distinct js"
  shows "for_each (add_grad i) js st =
     Inr (st\<lparr>grads := (grads st)[0 := map (\<lambda>j. if j \<in> set js
                 then grads st ! 0 ! j + grads st ! i ! j else grads st ! 0 ! j)
               [0..<length (grads st ! 0)]]\<rparr>)"
  using assms
proof (induction js arbitrary: st)
  case Nil
  then show ?case by (simp add: map_nth)
next
  case (Cons j js)
  let ?st1 = "st\<lparr>grads := (grads st)[0 := (grads st ! 0)[j := grads st ! 0 ! j + grads st ! i ! j]]\<rparr>"
  have step: "add_grad i j st = Inr ?st1"
    using Cons.prems by (simp add: add_grad_ok)
  have pos: "0 < length (grads st)" using Cons.prems by linarith
  have g0: "grads ?st1 ! 0 = (grads st ! 0)[j := grads st ! 0 ! j + grads st ! i ! j]"
    using pos by simp
  have gi: "grads ?st1 ! i = grads st ! i"
    using Cons.prems by simp
  have ih: "for_each (add_grad i) js ?st1 =
     Inr (?st1\<lparr>grads := (grads ?st1)[0 := map (\<lambda>k. if k \<in> set js
                 then grads ?st1 ! 0 ! k + grads ?st1 ! i ! k else grads ?st1 ! 0 ! k)
               [0..<length (grads ?st1 ! 0)]]\<rparr>)"
    by (rule Cons.IH) (use Cons.prems g0 gi in auto)
  have eq: "map (\<lambda>k. if k \<in> set js
                 then grads ?st1 ! 0 ! k + grads ?st1 ! i ! k else grads ?st1 ! 0 ! k)
               [0..<length (grads ?st1 ! 0)]
          = map (\<lambda>k. if k \<in> set (j # js)
                 then grads st ! 0 ! k + grads st ! i ! k else grads st ! 0 ! k)
               [0..<length (grads st ! 0)]"
    unfolding g0 gi using Cons.prems by (auto simp: nth_list_update)
  show ?case
    unfolding for_each.simps step sum.case ih eq by simp
qed


lemma for_each_add_grad_all:
  assumes "0 < i" "i < length (grads st)" "length (grads st ! 0) \<le> length (grads st ! i)"
  shows "for_each (add_grad i) [0..<length (grads st ! 0)] st =
     Inr (st\<lparr>grads := (grads st)[0 := map (\<lambda>j. grads st ! 0 ! j + grads st ! i ! j)
                        [0..<length (grads st ! 0)]]\<rparr>)"
proof -
  have "map (\<lambda>j. if j \<in> set [0..<length (grads st ! 0)]
                 then grads st ! 0 ! j + grads st ! i ! j else grads st ! 0 ! j)
               [0..<length (grads st ! 0)]
            = map (\<lambda>j. grads st ! 0 ! j + grads st ! i ! j) [0..<length (grads st ! 0)]"
    by (rule map_cong[OF refl]) simp
  moreover have "for_each (add_grad i) [0..<length (grads st ! 0)] st =
     Inr (st\<lparr>grads := (grads st)[0 := map (\<lambda>j. if j \<in> set [0..<length (grads st ! 0)]
                 then grads st ! 0 ! j + grads st ! i ! j else grads st ! 0 ! j)
               [0..<length (grads st ! 0)]]\<rparr>)"
    by (rule for_each_add_grad) (use assms in auto)
  ultimately show ?thesis by (simp only:)
qed

lemma add_tower_ok:
  assumes "0 < i" "i < length (loss_gen st)" "i < length (loss_gen_test st)"
    "i < length (grads st)" "length (grads st ! 0) \<le> length (grads st ! i)"
  shows "add_tower i st =
     Inr (st\<lparr>loss_gen := (loss_gen st)[0 := loss_gen st ! 0 + loss_gen st ! i],
             loss_gen_test := (loss_gen_test st)[0 := loss_gen_test st ! 0 + loss_gen_test st ! i],
             grads := (grads st)[0 := map (\<lambda>j. grads st ! 0 ! j + grads st ! i ! j)
                        [0..<length (grads st ! 0)]]\<rparr>)"
proof -
  let ?st1 = "st\<lparr>loss_gen := (loss_gen st)[0 := loss_gen st ! 0 + loss_gen st ! i],
             loss_gen_test := (loss_gen_test st)[0 := loss_gen_test st ! 0 + loss_gen_test st ! i]\<rparr>"
  have pos: "0 < length (loss_gen st)" "0 < length (loss_gen_test st)" "0 < length (grads st)"
    using assms by linarith+
  have unfold: "add_tower i st = for_each (add_grad i) [0..<length (grads ?st1 ! 0)] ?st1"
    using assms pos by (simp add: add_tower_def)
  have "for_each (add_grad i) [0..<length (grads ?st1 ! 0)] ?st1 =
     Inr (?st1\<lparr>grads := (grads ?st1)[0 := map (\<lambda>j. grads ?st1 ! 0 ! j + grads ?st1 ! i ! j)
                        [0..<length (grads ?st1 ! 0)]]\<rparr>)"
    by (rule for_each_add_grad_all) (use assms in auto)
  then show ?thesis
    unfolding unfold by simp
qed

lemma for_each_add_tower:
  assumes "\<forall>i\<in>set js. 0 < i \<and> i < length (loss_gen st) \<and> i < length (loss_gen_test st)
             \<and> i < length (grads st) \<and> length (grads st ! 0) \<le> length (grads st ! i)"
  shows "for_each add_tower js st =
     Inr (st\<lparr>loss_gen := (loss_gen st)[0 := foldl (+) (loss_gen st ! 0) (map (\<lambda>i. loss_gen st ! i) js)],
             loss_gen_test := (loss_gen_test st)[0 :=
                 foldl (+) (loss_gen_test st ! 0) (map (\<lambda>i. loss_gen_test st ! i) js)],
             grads := (grads st)[0 := map (\<lambda>j. foldl (+) (grads st ! 0 ! j) (map (\<lambda>i. grads st ! i ! j) js))
                        [0..<length (grads st ! 0)]]\<rparr>)"
  using assms
proof (induction js arbitrary: st)
  case Nil
  then show ?case by (simp add: map_nth)
next
  case (Cons i js)
  let ?st1 = "st\<lparr>loss_gen := (loss_gen st)[0 := loss_gen st ! 0 + loss_gen st ! i],
             loss_gen_test := (loss_gen_test st)[0 := loss_gen_test st ! 0 + loss_gen_test st ! i],
             grads := (grads st)[0 := map (\<lambda>j. grads st ! 0 ! j + grads st ! i ! j)
                        [0..<length (grads st ! 0)]]\<rparr>"
  have step: "add_tower i st = Inr ?st1"
    by (rule add_tower_ok) (use Cons.prems in auto)
  have pos: "0 < length (loss_gen st)" "0 < length (loss_gen_test st)" "0 < length (grads st)"
    using Cons.prems by force+
  have keep: "\<And>k. 0 < k \<Longrightarrow> loss_gen ?st1 ! k = loss_gen st ! k"
      "\<And>k. 0 < k \<Longrightarrow> loss_gen_test ?st1 ! k = loss_gen_test st ! k"
      "\<And>k. 0 < k \<Longrightarrow> grads ?st1 ! k = grads st ! k"
    by simp_all
  have hd0: "loss_gen ?st1 ! 0 = loss_gen st ! 0 + loss_gen st ! i"
      "loss_gen_test ?st1 ! 0 = loss_gen_test st ! 0 + loss_gen_test st ! i"
      "grads ?st1 ! 0 = map (\<lambda>j. grads st ! 0 ! j + grads st ! i ! j) [0..<length (grads st ! 0)]"
    using pos by simp_all
  have pre: "\<forall>k\<in>set js. 0 < k \<and> k < length (loss_gen ?st1) \<and> k < length (loss_gen_test ?st1)
             \<and> k < length (grads ?st1) \<and> length (grads ?st1 ! 0) \<le> length (grads ?st1 ! k)"
    using Cons.prems pos by auto
  have m1: "map (\<lambda>k. loss_gen ?st1 ! k) js = map (\<lambda>k. loss_gen st ! k) js"
    using Cons.prems by (intro map_cong refl keep) auto
  have m2: "map (\<lambda>k. loss_gen_test ?st1 ! k) js = map (\<lambda>k. loss_gen_test st ! k) js"
    using Cons.prems by (intro map_cong refl keep) auto
  have m3: "\<And>j. map (\<lambda>k. grads ?st1 ! k ! j) js = map (\<lambda>k. grads st ! k ! j) js"
    using Cons.prems by (intro map_cong refl arg_cong2[where f="(!)"] keep) auto
  have m4: "map (\<lambda>j. foldl (+) (grads ?st1 ! 0 ! j) (map (\<lambda>k. grads st ! k ! j) js)) [0..<length (grads ?st1 ! 0)]
          = map (\<lambda>j. foldl (+) (grads st ! 0 ! j) (map (\<lambda>k. grads st ! k ! j) (i # js))) [0..<length (grads st ! 0)]"
    unfolding hd0 by simp
  show ?case
    unfolding for_each.simps step sum.case Cons.IH[OF pre] m1 m2 m3 m4 hd0(1,2)
    by simp
qed

lemma map_nth_from_1: "map (\<lambda>i. f (xs ! i)) [1..<length xs] = map f (tl xs)"
proof (cases xs)
  case Nil
  then show ?thesis by simp
next
  case (Cons a ys)
  have "[1..<length xs] = map Suc [0..<length ys]"
    unfolding Cons by (simp add: map_Suc_upt del: upt_Suc)
  then have "map (\<lambda>i. f (xs ! i)) [1..<length xs] = map f (map (\<lambda>i. ys ! i) [0..<length ys])"
    unfolding Cons by (simp add: comp_def del: upt_Suc)
  then show ?thesis
    unfolding Cons by (simp add: map_nth del: upt_Suc)
qed

lemma foldl_plus_is_sum_list:
  fixes xs :: "'a::monoid_add list"
  shows "xs \<noteq> [] \<Longrightarrow> foldl (+) (hd xs) (tl xs) = sum_list xs"
proof -
  have "\<And>a. foldl (+) a ys = a + sum_list ys" for ys :: "'a list"
    by (induction ys) (simp_all add: add.assoc)
  then show "xs \<noteq> [] \<Longrightarrow> foldl (+) (hd xs) (tl xs) = sum_list xs"
    by (cases xs) simp_all
qed

section \<open>Aggregation of losses and gradients\<close>

text \<open>
  Claim C2. For a device count \<open>D \<ge> 1\<close> and per-device lists of length \<open>D\<close> whose
  gradient lists all have the same \<open>P\<close> entries, the aggregation succeeds; the aggregated
  loss is \<open>((l\<^sub>0 + l\<^sub>1) + l\<^sub>2) + ...\<close>, the per-device losses added in ascending
  device order, and entry \<open>j\<close> of the aggregated gradient is
  \<open>((g\<^sub>0\<^sub>j + g\<^sub>1\<^sub>j) + g\<^sub>2\<^sub>j) + ...\<close>, again in ascending device order. The addition is
  left uninterpreted, so the statement fixes the order; for an associative addition with
  zero the left-nested sum is \<open>sum_list\<close> (lemma \<open>foldl_plus_is_sum_list\<close>).
\<close>

theorem aggregate_sums_in_device_order:
  fixes st :: "('l::plus, 'g::plus) towers"
  assumes "1 \<le> nr_gpu a"
    and "length (loss_gen st) = nat (nr_gpu a)"
    and "length (loss_gen_test st) = nat (nr_gpu a)"
    and "length (grads st) = nat (nr_gpu a)"
    and "\<forall>g\<in>set (grads st). length g = P"
  shows "aggregate a st =
     Inr (foldl (+) (hd (loss_gen st)) (tl (loss_gen st)),
          foldl (+) (hd (loss_gen_test st)) (tl (loss_gen_test st)),
          map (\<lambda>j. foldl (+) (hd (grads st) ! j) (map (\<lambda>g. g ! j) (tl (grads st)))) [0..<P])"
proof -
  let ?D = "nat (nr_gpu a)"
  have D: "0 < ?D" using assms(1) by simp
  have ne: "loss_gen st \<noteq> []" "loss_gen_test st \<noteq> []" "grads st \<noteq> []"
    using assms D by auto
  have lenP: "\<And>i. i < ?D \<Longrightarrow> length (grads st ! i) = P"
    using assms(4,5) by (metis nth_mem)
  have pre: "\<forall>i\<in>set [1..<?D]. 0 < i \<and> i < length (loss_gen st) \<and> i < length (loss_gen_test st)
             \<and> i < length (grads st) \<and> length (grads st ! 0) \<le> length (grads st ! i)"
    using assms(2,3,4) lenP D by auto
  have hd0: "loss_gen st ! 0 = hd (loss_gen st)" "loss_gen_test st ! 0 = hd (loss_gen_test st)"
      "grads st ! 0 = hd (grads st)"
    using ne by (simp_all add: hd_conv_nth)
  have t1: "map (\<lambda>i. loss_gen st ! i) [1..<?D] = tl (loss_gen st)"
    using map_nth_from_1[where f="\<lambda>x. x" and xs="loss_gen st"] assms(2) by simp
  have t2: "map (\<lambda>i. loss_gen_test st ! i) [1..<?D] = tl (loss_gen_test st)"
    using map_nth_from_1[where f="\<lambda>x. x" and xs="loss_gen_test st"] assms(3) by simp
  have t3: "map (\<lambda>i. grads st ! i ! j) [1..<?D] = map (\<lambda>g. g ! j) (tl (grads st))" for j
    using map_nth_from_1[where f="\<lambda>g. g ! j" and xs="grads st"] assms(4) by simp
  have P0: "length (hd (grads st)) = P"
    using lenP[OF D] hd0(3) by simp
  have run: "add_towers a st =
     Inr (st\<lparr>loss_gen := (loss_gen st)[0 := foldl (+) (hd (loss_gen st)) (tl (loss_gen st))],
             loss_gen_test := (loss_gen_test st)[0 :=
                 foldl (+) (hd (loss_gen_test st)) (tl (loss_gen_test st))],
             grads := (grads st)[0 := map (\<lambda>j. foldl (+) (hd (grads st) ! j)
                            (map (\<lambda>g. g ! j) (tl (grads st)))) [0..<P]]\<rparr>)"
    unfolding add_towers_def for_each_add_tower[OF pre] t1 t2 t3 hd0 P0 ..
  show ?thesis
    unfolding aggregate_def run using assms(2,3,4) D by simp
qed

theorem aggregate_sums_in_device_order_witness:
  "aggregate (default_args\<lparr>nr_gpu := 3\<rparr>)
     \<lparr>loss_gen = [1, 2, 4 :: real], loss_gen_test = [8, 16, 32 :: real],
      grads = [[1, 10], [2, 20], [4, 40 :: real]]\<rparr>
   = Inr (7, 56, [7, 70])"
  using aggregate_sums_in_device_order [of "default_args\<lparr>nr_gpu := 3\<rparr>"
     "\<lparr>loss_gen = [1, 2, 4 :: real], loss_gen_test = [8, 16, 32 :: real],
      grads = [[1, 10], [2, 20], [4, 40 :: real]]\<rparr>" "Suc (Suc 0)"]
  by (simp add: default_args_def)

section \<open>Normalisation to bits per dimension\<close>

text \<open>
  Claim C3. With at least one device and a positive batch size, the training metric is
  the aggregated loss divided by \<open>nr_gpu * batch_size\<close>, and the evaluation metric is
  the aggregated evaluation loss divided by \<open>nr_gpu * batch_size\<close> and then by
  \<open>ln 2\<close> times the number of entries of an observation, the product \<open>3072\<close> of the
  observation dimensions.
\<close>

theorem bits_per_dim_normalisation:
  assumes "0 < nr_gpu a" and "0 < batch_size a"
  shows "bits_per_dim a L = L / (real_of_int (nr_gpu a) * real_of_int (batch_size a))
       \<and> bits_per_dim_test a T =
           T / (real_of_int (nr_gpu a) * real_of_int (batch_size a)) / (ln 2 * real (prod_list obs_shape))
       \<and> prod_list obs_shape = 32 * 32 * 3"
  by (simp add: bits_per_dim_def bits_per_dim_test_def obs_shape_def mult_ac)

theorem bits_per_dim_normalisation_witness:
  "bits_per_dim (default_args\<lparr>nr_gpu := 2, batch_size := 4\<rparr>) 16 = 2
   \<and> bits_per_dim_test (default_args\<lparr>nr_gpu := 2, batch_size := 4\<rparr>) 16 = 2 / (ln 2 * 3072)"
  using bits_per_dim_normalisation [of "default_args\<lparr>nr_gpu := 2, batch_size := 4\<rparr>" 16 16]
  by (simp add: default_args_def obs_shape_def)

text \<open>
  Claim C4. Two devices, batch size 4, per-device losses 3 and 5: the aggregated training
  loss is 8 and the training metric is \<open>8 / (2 * 4) = 1\<close>.
\<close>

theorem example_scenario_two_devices:
  "aggregate (default_args\<lparr>nr_gpu := 2, batch_size := 4\<rparr>)
     \<lparr>loss_gen = [3, 5 :: real], loss_gen_test = [7, 9 :: real], grads = [[1, 2], [10, 20 :: real]]\<rparr>
     = Inr (8, 16, [11, 22])
   \<and> bits_per_dim (default_args\<lparr>nr_gpu := 2, batch_size := 4\<rparr>) 8 = 1"
  by (simp add: aggregate_def add_towers_def add_tower_def add_grad_def default_args_def
      bits_per_dim_def numeral_2_eq_2)

section \<open>The shadow variables\<close>

lemma ema_fold_closed_form:
  "foldl (assign_moving_average d) s vs =
     d ^ length vs * s + (1 - d) * (\<Sum>k\<leftarrow>[0..<length vs]. d ^ (length vs - 1 - k) * vs ! k)"
proof (induction vs rule: rev_induct)
  case Nil
  then show ?case by simp
next
  case (snoc v vs)
  let ?n = "length vs"
  have shift: "(\<Sum>k\<leftarrow>[0..<?n]. d ^ (Suc ?n - 1 - k) * (vs @ [v]) ! k)
        = d * (\<Sum>k\<leftarrow>[0..<?n]. d ^ (?n - 1 - k) * vs ! k)"
  proof -
    have "map (\<lambda>k. d ^ (Suc ?n - 1 - k) * (vs @ [v]) ! k) [0..<?n]
        = map (\<lambda>k. d * (d ^ (?n - 1 - k) * vs ! k)) [0..<?n]"
    proof (rule map_cong[OF refl])
      fix k assume "k \<in> set [0..<?n]"
      then have k: "k < ?n" by simp
      then have "Suc ?n - 1 - k = Suc (?n - 1 - k)" by simp
      then show "d ^ (Suc ?n - 1 - k) * (vs @ [v]) ! k = d * (d ^ (?n - 1 - k) * vs ! k)"
        using k by (simp add: nth_append)
    qed
    then have "(\<Sum>k\<leftarrow>[0..<?n]. d ^ (Suc ?n - 1 - k) * (vs @ [v]) ! k)
        = (\<Sum>k\<leftarrow>[0..<?n]. d * (d ^ (?n - 1 - k) * vs ! k))"
      by (rule arg_cong[where f=sum_list])
    also have "\<dots> = d * (\<Sum>k\<leftarrow>[0..<?n]. d ^ (?n - 1 - k) * vs ! k)"
      by (rule sum_list_const_mult)
    finally show ?thesis .
  qed
  have "foldl (assign_moving_average d) s (vs @ [v])
      = assign_moving_average d (foldl (assign_moving_average d) s vs) v"
    by simp
  also have "\<dots> = d * (d ^ ?n * s + (1 - d) * (\<Sum>k\<leftarrow>[0..<?n]. d ^ (?n - 1 - k) * vs ! k)) + (1 - d) * v"
    unfolding snoc.IH by (simp add: assign_moving_average_def algebra_simps)
  also have "\<dots> = d ^ Suc ?n * s
      + (1 - d) * ((\<Sum>k\<leftarrow>[0..<?n]. d ^ (Suc ?n - 1 - k) * (vs @ [v]) ! k) + v)"
    unfolding shift by (simp add: algebra_simps)
  finally show ?case by simp
qed

lemma geometric_weights:
  fixes d :: real
  shows "(1 - d) * (\<Sum>k\<leftarrow>[0..<n]. d ^ (n - 1 - k)) = 1 - d ^ n"
proof -
  have "(\<Sum>k\<leftarrow>[0..<n]. d ^ (n - 1 - k)) = (\<Sum>k<n. d ^ (n - Suc k))"
    by (simp add: interv_sum_list_conv_sum_set_nat atLeast0LessThan)
  also have "\<dots> = (\<Sum>k<n. d ^ k)"
    by (rule sum.nat_diff_reindex)
  finally have "(1 - d) * (\<Sum>k\<leftarrow>[0..<n]. d ^ (n - 1 - k)) = (1 - d) * (\<Sum>k<n. d ^ k)"
    by simp
  also have "\<dots> = 1 - d ^ n"
    using power_diff_1_eq[of d n] by (simp add: algebra_simps)
  finally show ?thesis .
qed

lemma weights_nonzero:
  fixes d :: real
  assumes "d \<noteq> - 1" and "0 < n"
  shows "(\<Sum>k\<leftarrow>[0..<n]. d ^ (n - 1 - k)) \<noteq> 0"
proof
  assume z: "(\<Sum>k\<leftarrow>[0..<n]. d ^ (n - 1 - k)) = 0"
  then have "1 - d ^ n = 0" using geometric_weights[of d n] by simp
  then have "d ^ n = 1" by simp
  then have "\<bar>d\<bar> = 1" using assms(2) power_eq_1_iff[of d n] by simp
  then have "d = 1" using assms(1) by linarith
  then have "(\<Sum>k\<leftarrow>[0..<n]. d ^ (n - 1 - k)) = real n"
    by (simp add: sum_list_triv)
  then show False using z assms(2) by simp
qed

lemma ema_fold_weighted_history:
  assumes "d \<noteq> - 1"
  shows "foldl (assign_moving_average d) s vs =
     d ^ length vs * s + (1 - d ^ length vs) * decay_weighted_history d vs"
proof (cases "vs = []")
  case True
  then show ?thesis by (simp add: decay_weighted_history_def)
next
  case False
  let ?n = "length vs"
  let ?S = "\<Sum>k\<leftarrow>[0..<?n]. d ^ (?n - 1 - k)"
  let ?H = "\<Sum>k\<leftarrow>[0..<?n]. d ^ (?n - 1 - k) * vs ! k"
  have S: "?S \<noteq> 0" using weights_nonzero[OF assms, of ?n] False by simp
  have "(1 - d ^ ?n) * decay_weighted_history d vs = (1 - d) * ?S * (?H / ?S)"
    unfolding decay_weighted_history_def geometric_weights ..
  also have "\<dots> = (1 - d) * ?H" using S by simp
  finally show ?thesis unfolding ema_fold_closed_form by simp
qed

lemma map_length_eq_nth:
  assumes "map length xs = map length ys" and "j < length ys"
  shows "j < length xs" and "length (xs ! j) = length (ys ! j)"
proof -
  have len: "length xs = length ys" using assms(1) by (rule map_eq_imp_length_eq)
  then show "j < length xs" using assms(2) by simp
  then have "map length xs ! j = length (xs ! j)" by simp
  moreover have "map length ys ! j = length (ys ! j)" using assms(2) by simp
  ultimately show "length (xs ! j) = length (ys ! j)" using assms(1) by simp
qed

lemma averaged_values_shapes:
  assumes "keeps_shapes adam"
  shows "map length (averaged_values adam late g rate s) = map length (live s)"
proof (rule nth_equalityI)
  show "length (map length (averaged_values adam late g rate s)) = length (map length (live s))"
    by (simp add: averaged_values_def)
next
  fix j assume "j < length (map length (averaged_values adam late g rate s))"
  then have j: "j < length (live s)" by (simp add: averaged_values_def)
  have "map length (fst (adam (live s) g rate 0.95 0.9995 (slots s))) = map length (live s)"
    using assms unfolding keeps_shapes_def by blast
  then have "length (fst (adam (live s) g rate 0.95 0.9995 (slots s)) ! j) = length (live s ! j)"
    using j by (rule map_length_eq_nth(2))
  then show "map length (averaged_values adam late g rate s) ! j = map length (live s) ! j"
    using j by (simp add: averaged_values_def)
qed

lemma averaged_values_old_or_new:
  assumes "j < length (live s)"
  shows "averaged_values adam late g rate s ! j = live s ! j
       \<or> averaged_values adam late g rate s ! j = live (optimizer adam a late g rate s) ! j"
  using assms by (simp add: averaged_values_def optimizer_def)

lemma maintain_averages_shapes:
  assumes "map length seen = map length shadows"
  shows "map length (maintain_averages_op d seen shadows) = map length shadows"
proof (rule nth_equalityI)
  have len: "length seen = length shadows" using assms by (rule map_eq_imp_length_eq)
  then show "length (map length (maintain_averages_op d seen shadows)) = length (map length shadows)"
    by (simp add: maintain_averages_op_def)
  fix j assume "j < length (map length (maintain_averages_op d seen shadows))"
  then have j: "j < length shadows" using len by (simp add: maintain_averages_op_def)
  have "length (seen ! j) = length (shadows ! j)"
    using map_length_eq_nth(2)[OF assms j] .
  then show "map length (maintain_averages_op d seen shadows) ! j = map length shadows ! j"
    using j len by (simp add: maintain_averages_op_def)
qed

lemma maintain_averages_nth:
  assumes "map length seen = map length shadows" and "j < length shadows" and "e < length (shadows ! j)"
  shows "maintain_averages_op d seen shadows ! j ! e = assign_moving_average d (shadows ! j ! e) (seen ! j ! e)"
proof -
  have len: "length seen = length shadows" using assms(1) by (rule map_eq_imp_length_eq)
  have "length (seen ! j) = length (shadows ! j)"
    using assms(1,2) by (rule map_length_eq_nth(2))
  then show ?thesis
    using assms(2,3) len by (simp add: maintain_averages_op_def)
qed

lemma optimizer_live_shapes:
  assumes "keeps_shapes adam"
  shows "map length (live (optimizer adam a late g rate s)) = map length (live s)"
  using assms unfolding keeps_shapes_def by (simp add: optimizer_def)

lemma optimizer_mirrors:
  assumes "keeps_shapes adam" and "mirrors s"
  shows "mirrors (optimizer adam a late g rate s)"
proof -
  have seen: "map length (averaged_values adam late g rate s) = map length (shadow s)"
    using averaged_values_shapes[OF assms(1)] assms(2) by (simp add: mirrors_def)
  have "map length (shadow (optimizer adam a late g rate s)) = map length (shadow s)"
    using maintain_averages_shapes[OF seen] by (simp add: optimizer_def)
  moreover have "map length (live (optimizer adam a late g rate s)) = map length (live s)"
    by (rule optimizer_live_shapes[OF assms(1)])
  moreover have "map length (shadow s) = map length (live s)"
    using assms(2) by (simp add: mirrors_def)
  ultimately show ?thesis
    unfolding mirrors_def by (simp only:)
qed

lemma optimizer_steps_mirrors:
  assumes "keeps_shapes adam" and "mirrors s"
  shows "mirrors (optimizer_steps adam a steps s)"
  using assms(2)
proof (induction steps arbitrary: s)
  case Nil
  then show ?case by simp
next
  case (Cons step rest)
  obtain late g rate where step: "step = (late, g, rate)" by (cases step)
  show ?case
    unfolding step optimizer_steps.simps
    by (rule Cons.IH) (rule optimizer_mirrors[OF assms(1) Cons.prems])
qed

lemma optimizer_shadow_nth:
  assumes "keeps_shapes adam" and "mirrors s" and "j < length (live s)" and "e < length (live s ! j)"
  shows "shadow (optimizer adam a late g rate s) ! j ! e =
     assign_moving_average (polyak_decay a) (shadow s ! j ! e) (averaged_values adam late g rate s ! j ! e)"
proof -
  have seen: "map length (averaged_values adam late g rate s) = map length (shadow s)"
    using averaged_values_shapes[OF assms(1)] assms(2) by (simp add: mirrors_def)
  have m: "map length (shadow s) = map length (live s)"
    using assms(2) by (simp add: mirrors_def)
  have j: "j < length (shadow s)" using m assms(3) by (rule map_length_eq_nth(1))
  have e: "e < length (shadow s ! j)"
    using map_length_eq_nth(2)[OF m assms(3)] assms(4) by simp
  show ?thesis
    using maintain_averages_nth[OF seen j e] by (simp add: optimizer_def)
qed

lemma optimizer_steps_shadow_fold:
  assumes "keeps_shapes adam" and "mirrors s" and "j < length (live s)" and "e < length (live s ! j)"
  shows "shadow (optimizer_steps adam a steps s) ! j ! e =
     foldl (assign_moving_average (polyak_decay a)) (shadow s ! j ! e)
       (map (\<lambda>seen. seen ! j ! e) (averaged_history adam a steps s))"
  using assms(2,3,4)
proof (induction steps arbitrary: s)
  case Nil
  then show ?case by simp
next
  case (Cons step rest)
  obtain late g rate where step: "step = (late, g, rate)" by (cases step)
  let ?s1 = "optimizer adam a late g rate s"
  have shp: "map length (live ?s1) = map length (live s)"
    by (rule optimizer_live_shapes[OF assms(1)])
  have j1: "j < length (live ?s1)"
    using shp Cons.prems(2) by (rule map_length_eq_nth(1))
  have e1: "e < length (live ?s1 ! j)"
    using map_length_eq_nth(2)[OF shp Cons.prems(2)] Cons.prems(3) by simp
  have m1: "mirrors ?s1"
    by (rule optimizer_mirrors[OF assms(1) Cons.prems(1)])
  show ?case
    unfolding step optimizer_steps.simps averaged_history.simps
    using Cons.IH[OF m1 j1 e1] optimizer_shadow_nth[OF assms(1) Cons.prems, of a late g rate]
    by simp
qed

text \<open>
  Claim C6. Let the optimizer keep the shapes of the variables, let the shadow variables
  mirror the variables in number and shape, and take an entry \<open>e\<close> of a variable \<open>j\<close>.
  One training operation sets the shadow entry to \<open>decay * shadow + (1 - decay) * v\<close>,
  where \<open>v\<close> is the value of the variable that the averaging read: its value before or
  after Adam's assignment of the same operation. After \<open>N\<close> operations the shadow entry
  is \<open>decay ^ N\<close> times its initial value plus \<open>1 - decay ^ N\<close> times the
  decay-weighted history of the values read. The shadow variables mirror the variables
  after one and after any number of operations. The statement needs \<open>decay \<noteq> - 1\<close>:
  for \<open>decay = - 1\<close> and even \<open>N\<close> the factor \<open>1 - decay ^ N\<close> is zero and the
  weights cancel, while the shadow value still depends on the history; every decay in
  \<open>[0, 1]\<close> is covered.
\<close>

theorem shadow_is_moving_average:
  assumes "keeps_shapes adam" and "mirrors s" and "polyak_decay a \<noteq> - 1"
    and "j < length (live s)" and "e < length (live s ! j)"
  shows "shadow (optimizer adam a late g rate s) ! j ! e =
           polyak_decay a * shadow s ! j ! e
             + (1 - polyak_decay a) * averaged_values adam late g rate s ! j ! e
       \<and> (averaged_values adam late g rate s ! j = live s ! j
            \<or> averaged_values adam late g rate s ! j = live (optimizer adam a late g rate s) ! j)
       \<and> shadow (optimizer_steps adam a steps s) ! j ! e =
           polyak_decay a ^ length steps * shadow s ! j ! e
             + (1 - polyak_decay a ^ length steps)
               * decay_weighted_history (polyak_decay a)
                   (map (\<lambda>seen. seen ! j ! e) (averaged_history adam a steps s))
       \<and> mirrors (optimizer adam a late g rate s)
       \<and> mirrors (optimizer_steps adam a steps s)"
proof -
  have n: "length (map (\<lambda>seen. seen ! j ! e) (averaged_history adam a steps s)) = length steps"
    by (induction steps arbitrary: s) auto
  have one: "shadow (optimizer adam a late g rate s) ! j ! e =
           polyak_decay a * shadow s ! j ! e
             + (1 - polyak_decay a) * averaged_values adam late g rate s ! j ! e"
    using optimizer_shadow_nth[OF assms(1,2,4,5), of a late g rate]
    by (simp add: assign_moving_average_def algebra_simps)
  have many: "shadow (optimizer_steps adam a steps s) ! j ! e =
           polyak_decay a ^ length steps * shadow s ! j ! e
             + (1 - polyak_decay a ^ length steps)
               * decay_weighted_history (polyak_decay a)
                   (map (\<lambda>seen. seen ! j ! e) (averaged_history adam a steps s))"
    unfolding optimizer_steps_shadow_fold[OF assms(1,2,4,5)]
      ema_fold_weighted_history[OF assms(3)] n ..
  show ?thesis
    using one many averaged_values_old_or_new[OF assms(4), of adam late g rate a]
      optimizer_mirrors[OF assms(1,2)] optimizer_steps_mirrors[OF assms(1,2)]
    by blast
qed

lemma keeps_shapes_plain_descent: "keeps_shapes plain_descent"
  by (simp add: keeps_shapes_def plain_descent_def comp_def)

theorem shadow_is_moving_average_witness:
  "shadow (optimizer_steps plain_descent (default_args\<lparr>polyak_decay := 1 / 2\<rparr>)
      [(\<lambda>j. False, [[0]], 1), (\<lambda>j. True, [[0]], 1)]
      \<lparr>live = [[1]], shadow = [[0]], slots = (), rng = ()\<rparr>) ! 0 ! 0
    = (1 / 2) ^ 2 * 0 + (1 - (1 / 2) ^ 2) * decay_weighted_history (1 / 2) [1, - 1]
   \<and> decay_weighted_history (1 / 2) [1, - 1] = - (1 / 3)
   \<and> shadow (optimizer plain_descent (default_args\<lparr>polyak_decay := 1 / 2\<rparr>) (\<lambda>j. False) [[0]] 1
      \<lparr>live = [[1]], shadow = [[0]], slots = (), rng = ()\<rparr>) ! 0 ! 0 = 1 / 2"
proof -
  let ?a = "default_args\<lparr>polyak_decay := 1 / 2\<rparr>"
  let ?s = "\<lparr>live = [[1]], shadow = [[0]], slots = (), rng = ()\<rparr> :: (unit, unit) session"
  let ?steps = "[(\<lambda>j. False, [[0]], 1), (\<lambda>j. True, [[0]], 1)] :: ((nat \<Rightarrow> bool) \<times> tensor list \<times> real) list"
  have m: "mirrors ?s" by (simp add: mirrors_def)
  have d: "polyak_decay ?a \<noteq> - 1" by simp
  have j: "0 < length (live ?s)" and e: "0 < length (live ?s ! 0)" by simp_all
  have h: "map (\<lambda>seen. seen ! 0 ! 0) (averaged_history plain_descent ?a ?steps ?s) = [1, - 1]"
    by (simp add: averaged_values_def optimizer_def plain_descent_def maintain_averages_op_def)
  have w: "decay_weighted_history (1 / 2) [1, - 1] = - (1 / 3)"
    by (simp add: decay_weighted_history_def numeral_2_eq_2)
  have c3: "shadow (optimizer_steps plain_descent ?a ?steps ?s) ! 0 ! 0 =
           polyak_decay ?a ^ length ?steps * shadow ?s ! 0 ! 0
             + (1 - polyak_decay ?a ^ length ?steps)
               * decay_weighted_history (polyak_decay ?a)
                   (map (\<lambda>seen. seen ! 0 ! 0) (averaged_history plain_descent ?a ?steps ?s))"
    using shadow_is_moving_average[OF keeps_shapes_plain_descent m d j e,
        of "\<lambda>j. False" "[[0]]" 1 ?steps]
    by blast
  have p: "polyak_decay ?a = 1 / 2" "length ?steps = 2" "shadow ?s ! 0 ! 0 = 0"
    by simp_all
  have c1: "shadow (optimizer plain_descent ?a (\<lambda>j. False) [[0]] 1 ?s) ! 0 ! 0 = 1 / 2"
    by (simp add: averaged_values_def optimizer_def plain_descent_def maintain_averages_op_def
        assign_moving_average_def)
  have "shadow (optimizer_steps plain_descent ?a ?steps ?s) ! 0 ! 0
      = (1 / 2) ^ 2 * 0 + (1 - (1 / 2) ^ 2) * decay_weighted_history (1 / 2) [1, - 1]"
    using c3 unfolding h p .
  then show ?thesis using w c1 by (simp only: simp_thms)
qed

section \<open>The sampling loops: one pass of the body\<close>

lemma for_each_upt_rule:
  assumes "P m st" and "m \<le> n"
    and "\<And>i u. m \<le> i \<Longrightarrow> i < n \<Longrightarrow> P i u \<Longrightarrow>
           (case body i u of Inl e \<Rightarrow> True | Inr v \<Rightarrow> P (Suc i) v)"
  shows "case for_each body [m..<n] st of Inl e \<Rightarrow> True | Inr v \<Rightarrow> P n v"
  using assms
proof (induction "n - m" arbitrary: m st)
  case 0
  then show ?case by simp
next
  case (Suc k)
  then have mn: "m < n" by simp
  have step: "case body m st of Inl e \<Rightarrow> True | Inr v \<Rightarrow> P (Suc m) v"
    using Suc.prems(1,3) mn by simp
  show ?case
  proof (cases "body m st")
    case (Inl e)
    then show ?thesis using mn by (simp add: upt_rec[of m n])
  next
    case (Inr v)
    then have "P (Suc m) v" using step by simp
    moreover have "k = n - Suc m" using Suc.hyps(2) by simp
    moreover have "Suc m \<le> n" using mn by simp
    ultimately have "case for_each body [Suc m..<n] v of Inl e \<Rightarrow> True | Inr v \<Rightarrow> P n v"
      using Suc.prems(3) by (intro Suc.hyps(1)) auto
    then show ?thesis using Inr mn by (simp add: upt_rec[of m n])
  qed
qed

lemma for_each_total:
  assumes "\<forall>i u. \<exists>v. body i u = Inr v"
  shows "\<exists>v. for_each body xs st = Inr v"
proof (induction xs arbitrary: st)
  case Nil
  then show ?case by simp
next
  case (Cons i xs)
  obtain v where "body i st = Inr v" using assms by blast
  then show ?case using Cons.IH[of v] by simp
qed

lemma sess_run_length:
  "sess_run node xs s = Inr (vs, s') \<Longrightarrow> length vs = length xs"
proof (induction xs arbitrary: s vs)
  case Nil
  then show ?case by simp
next
  case (Cons x xs)
  then show ?case by (auto split: sum.splits prod.splits)
qed

lemma sess_run_total:
  assumes "\<forall>x s. \<exists>v s'. node x s = Inr (v, s')"
  shows "\<exists>vs s'. sess_run node xs s = Inr (vs, s')"
proof (induction xs arbitrary: s)
  case Nil
  then show ?case by simp
next
  case (Cons x xs)
  obtain v s1 where 1: "node x s = Inr (v, s1)" using assms by blast
  obtain vs s2 where 2: "sess_run node xs s1 = Inr (vs, s2)" using Cons.IH by blast
  show ?case using 1 2 by simp
qed

lemma raster_less_next_col:
  "raster_less p (yi, xi) \<Longrightarrow> raster_less p (yi, Suc xi)"
  "raster_less (yi, xi) (yi, Suc xi)"
  "raster_less p (yi, w) \<Longrightarrow> raster_less p (Suc yi, 0)"
  by (auto simp: raster_less_def)

lemma scanning_pixel:
  assumes inv: "scanning n w yi xi st" and run: "sample_pixel node n yi xi st = Inr st'"
  shows "scanning n w yi (Suc xi) st'"
proof -
  let ?feed = "map (\<lambda>i. x_gen st ! i) [0..<n]"
  obtain new s' where sr: "sess_run node ?feed (sess st) = Inr (new, s')"
    using run by (auto simp: sample_pixel_def split: sum.splits)
  have st': "st' = \<lparr>x_gen = map (\<lambda>i. assign_pixel yi xi (new ! i) (x_gen st ! i)) [0..<n],
               sess = s', visits = visits st @ [\<lparr>row = yi, col = xi, fed = ?feed, sess_before = sess st,
                 returned = new, sess_after = s'\<rparr>]\<rparr>"
    using run sr by (simp add: sample_pixel_def)
  have len_new: "length new = n" using sess_run_length[OF sr] by simp
  have nl: "\<not> raster_less (yi, xi) (yi, xi)" by (simp add: raster_less_def)
  have old: "\<forall>v\<in>set (visits st). raster_less (position v) (yi, xi)
            \<and> length (fed v) = n \<and> length (returned v) = n
            \<and> (\<forall>i<n. \<forall>b y x c. \<not> raster_less (y, x) (position v) \<longrightarrow> (fed v ! i) b y x c = 0)
            \<and> (\<forall>i<n. \<forall>b c. (x_gen st ! i) b (row v) (col v) c = (returned v ! i) b (row v) (col v) c)"
    using inv by (simp add: scanning_def)
  have zero: "\<forall>i<n. \<forall>b y x c. \<not> raster_less (y, x) (yi, xi) \<longrightarrow> (x_gen st ! i) b y x c = 0"
    using inv by (simp add: scanning_def)
  have c1: "length (x_gen st') = n" by (simp add: st')
  have c2: "map position (visits st') =
      concat (map (\<lambda>y. map (Pair y) [0..<w]) [0..<yi]) @ map (Pair yi) [0..<Suc xi]"
    using inv by (simp add: st' scanning_def position_def)
  have c3: "\<forall>i<n. \<forall>b y x c. \<not> raster_less (y, x) (yi, Suc xi) \<longrightarrow> (x_gen st' ! i) b y x c = 0"
    using zero by (auto simp: st' assign_pixel_def raster_less_def)
  have c4: "\<forall>v\<in>set (visits st'). raster_less (position v) (yi, Suc xi)
            \<and> length (fed v) = n \<and> length (returned v) = n
            \<and> (\<forall>i<n. \<forall>b y x c. \<not> raster_less (y, x) (position v) \<longrightarrow> (fed v ! i) b y x c = 0)
            \<and> (\<forall>i<n. \<forall>b c. (x_gen st' ! i) b (row v) (col v) c = (returned v ! i) b (row v) (col v) c)"
  proof
    fix v assume "v \<in> set (visits st')"
    then consider (old) "v \<in> set (visits st)"
      | (new) "v = \<lparr>row = yi, col = xi, fed = ?feed, sess_before = sess st,
                 returned = new, sess_after = s'\<rparr>"
      by (auto simp: st')
    then show "raster_less (position v) (yi, Suc xi)
            \<and> length (fed v) = n \<and> length (returned v) = n
            \<and> (\<forall>i<n. \<forall>b y x c. \<not> raster_less (y, x) (position v) \<longrightarrow> (fed v ! i) b y x c = 0)
            \<and> (\<forall>i<n. \<forall>b c. (x_gen st' ! i) b (row v) (col v) c = (returned v ! i) b (row v) (col v) c)"
    proof cases
      case old
      then have v: "raster_less (position v) (yi, xi)" "length (fed v) = n" "length (returned v) = n"
        "\<forall>i<n. \<forall>b y x c. \<not> raster_less (y, x) (position v) \<longrightarrow> (fed v ! i) b y x c = 0"
        "\<forall>i<n. \<forall>b c. (x_gen st ! i) b (row v) (col v) c = (returned v ! i) b (row v) (col v) c"
        using \<open>\<forall>v\<in>set (visits st). _\<close> by blast+
      have ne: "\<not> (row v = yi \<and> col v = xi)"
        using v(1) nl by (auto simp: position_def)
      have "\<forall>i<n. \<forall>b c. (x_gen st' ! i) b (row v) (col v) c = (returned v ! i) b (row v) (col v) c"
        using v(5) ne by (auto simp: st' assign_pixel_def)
      then show ?thesis
        using v raster_less_next_col(1) by blast
    next
      case new
      have "\<forall>i<n. \<forall>b y x c. \<not> raster_less (y, x) (yi, xi) \<longrightarrow> (?feed ! i) b y x c = 0"
        using zero by simp
      then show ?thesis
        using len_new raster_less_next_col(2)
        by (simp add: new position_def st' assign_pixel_def)
    qed
  qed
  show ?thesis
    unfolding scanning_def using c1 c2 c3 c4 by blast
qed

section \<open>The sampling loops: raster order\<close>

lemma scanning_row:
  fixes st :: "('v::zero, 's) sampler"
  assumes "scanning n w yi 0 st" and "sample_row node n w yi st = Inr st'"
  shows "scanning n w yi w st'"
proof -
  have "case for_each (sample_pixel node n yi) [0..<w] st of
          Inl e \<Rightarrow> True | Inr v \<Rightarrow> scanning n w yi w v"
  proof (rule for_each_upt_rule[where P="scanning n w yi"])
    show "scanning n w yi 0 st" by (rule assms(1))
    show "0 \<le> w" by simp
    fix i and u :: "('v, 's) sampler" assume "scanning n w yi i u"
    then show "case sample_pixel node n yi i u of Inl e \<Rightarrow> True | Inr v \<Rightarrow> scanning n w yi (Suc i) v"
      by (auto split: sum.splits intro: scanning_pixel)
  qed
  then show ?thesis using assms(2) by (simp add: sample_row_def)
qed

lemma scanning_next_row:
  assumes "scanning n w yi w st"
  shows "scanning n w (Suc yi) 0 st"
proof -
  have r: "\<And>p. raster_less p (yi, w) \<Longrightarrow> raster_less p (Suc yi, 0)"
    by (rule raster_less_next_col(3))
  have z: "\<And>y x. \<not> raster_less (y, x) (Suc yi, 0) \<Longrightarrow> \<not> raster_less (y, x) (yi, w)"
    by (auto simp: raster_less_def)
  show ?thesis
    using assms unfolding scanning_def by (auto dest: r z)
qed

lemma scanning_loops:
  fixes st :: "('v::zero, 's) sampler"
  assumes "sample_loops node n h w s = Inr st"
  shows "scanning n w h 0 st"
proof -
  let ?st0 = "\<lparr>x_gen = replicate n np_zeros, sess = s, visits = []\<rparr> :: ('v, 's) sampler"
  have start: "scanning n w 0 0 ?st0"
    by (simp add: scanning_def np_zeros_def)
  have "case for_each (sample_row node n w) [0..<h] ?st0 of
          Inl e \<Rightarrow> True | Inr v \<Rightarrow> scanning n w h 0 v"
  proof (rule for_each_upt_rule[where P="\<lambda>yi. scanning n w yi 0"])
    show "scanning n w 0 0 ?st0" by (rule start)
    show "0 \<le> h" by simp
    fix i and u :: "('v, 's) sampler" assume "scanning n w i 0 u"
    then show "case sample_row node n w i u of Inl e \<Rightarrow> True | Inr v \<Rightarrow> scanning n w (Suc i) 0 v"
      by (auto split: sum.splits intro: scanning_next_row scanning_row)
  qed
  then show ?thesis using assms by (simp add: sample_loops_def)
qed

lemma raster_positions: "concat (map (\<lambda>y. map (Pair y) [0..<w]) [0..<h]) = List.product [0..<h] [0..<w]"
  by (simp add: product_concat_map)

lemma raster_sorted: "sorted_wrt raster_less (List.product [0..<h] [0..<w])"
proof (induction h)
  case 0
  then show ?case by simp
next
  case (Suc h)
  have row: "sorted_wrt raster_less (map (Pair h) [0..<w])"
    by (simp add: sorted_wrt_map raster_less_def)
  have cross: "\<forall>p\<in>set (List.product [0..<h] [0..<w]). \<forall>q\<in>set (map (Pair h) [0..<w]). raster_less p q"
    by (auto simp: raster_less_def)
  have "List.product [0..<Suc h] [0..<w] = List.product [0..<h] [0..<w] @ map (Pair h) [0..<w]"
    by (simp add: product_concat_map)
  then show ?case
    using Suc.IH row cross by (simp add: sorted_wrt_append)
qed

lemma sample_loops_total:
  assumes "\<forall>x s. \<exists>v s'. node x s = Inr (v, s')"
  shows "\<exists>st. sample_loops node n h w s = Inr st"
proof -
  have pixel: "\<forall>xi u. \<exists>v. sample_pixel node n yi xi u = Inr v" for yi
  proof (intro allI)
    fix xi and u :: "('a, 'b) sampler"
    obtain vs s' where "sess_run node (map (\<lambda>i. x_gen u ! i) [0..<n]) (sess u) = Inr (vs, s')"
      using sess_run_total[OF assms] by blast
    then show "\<exists>v. sample_pixel node n yi xi u = Inr v" by (simp add: sample_pixel_def)
  qed
  have row: "\<forall>yi u. \<exists>v. sample_row node n w yi u = Inr v"
    unfolding sample_row_def using for_each_total[OF pixel] by blast
  show ?thesis
    unfolding sample_loops_def by (rule for_each_total[OF row])
qed

lemma for_each_Inr_invariant:
  assumes "P st" and "\<And>i u v. P u \<Longrightarrow> body i u = Inr v \<Longrightarrow> P v"
    and "for_each body xs st = Inr st'"
  shows "P st'"
  using assms(1,3)
proof (induction xs arbitrary: st)
  case Nil
  then show ?case by simp
next
  case (Cons i xs)
  then obtain u where u: "body i st = Inr u" and rest: "for_each body xs u = Inr st'"
    by (auto split: sum.splits)
  have "P u" using Cons.prems(1) u by (rule assms(2))
  then show ?case using rest by (rule Cons.IH)
qed

lemma linked_pixel:
  fixes st :: "('v::zero, 's) sampler"
  assumes L: "linked node n s0 st" and len: "length (x_gen st) = n"
    and run: "sample_pixel node n yi xi st = Inr st'"
  shows "linked node n s0 st' \<and> length (x_gen st') = n"
proof -
  let ?feed = "map (\<lambda>i. x_gen st ! i) [0..<n]"
  obtain new s' where sr: "sess_run node ?feed (sess st) = Inr (new, s')"
    using run by (auto simp: sample_pixel_def split: sum.splits)
  let ?v = "\<lparr>row = yi, col = xi, fed = ?feed, sess_before = sess st,
             returned = new, sess_after = s'\<rparr>"
  have st': "st' = \<lparr>x_gen = map (\<lambda>i. assign_pixel yi xi (new ! i) (x_gen st ! i)) [0..<n],
               sess = s', visits = visits st @ [?v]\<rparr>"
    using run sr by (simp add: sample_pixel_def)
  have feed: "?feed = x_gen st"
    using len map_nth[of "x_gen st"] by simp
  have wr: "written n ?v = map (\<lambda>i. assign_pixel yi xi (new ! i) (x_gen st ! i)) [0..<n]"
    unfolding written_def by (rule map_cong[OF refl]) simp
  have old1: "\<forall>v\<in>set (visits st). sess_run node (fed v) (sess_before v) = Inr (returned v, sess_after v)"
    and old2: "\<forall>k. Suc k < length (visits st) \<longrightarrow>
             sess_before (visits st ! Suc k) = sess_after (visits st ! k)
             \<and> fed (visits st ! Suc k) = written n (visits st ! k)"
    and old3: "visits st = [] \<longrightarrow> x_gen st = replicate n np_zeros \<and> sess st = s0"
    and old4: "visits st \<noteq> [] \<longrightarrow>
             fed (hd (visits st)) = replicate n np_zeros \<and> sess_before (hd (visits st)) = s0
             \<and> x_gen st = written n (last (visits st)) \<and> sess st = sess_after (last (visits st))"
    using L unfolding linked_def by blast+
  have c1: "\<forall>v\<in>set (visits st'). sess_run node (fed v) (sess_before v) = Inr (returned v, sess_after v)"
    using old1 sr by (auto simp: st')
  have c2: "\<forall>k. Suc k < length (visits st') \<longrightarrow>
             sess_before (visits st' ! Suc k) = sess_after (visits st' ! k)
             \<and> fed (visits st' ! Suc k) = written n (visits st' ! k)"
  proof (intro allI impI)
    fix k assume "Suc k < length (visits st')"
    then have k: "Suc k \<le> length (visits st)" by (simp add: st')
    show "sess_before (visits st' ! Suc k) = sess_after (visits st' ! k)
             \<and> fed (visits st' ! Suc k) = written n (visits st' ! k)"
    proof (cases "Suc k < length (visits st)")
      case True
      then show ?thesis using old2 by (simp add: st' nth_append)
    next
      case False
      then have eq: "Suc k = length (visits st)" using k by simp
      then have ne: "visits st \<noteq> []" by auto
      have lastk: "visits st ! k = last (visits st)"
        using ne by (simp add: last_conv_nth eq[symmetric])
      have "visits st' ! Suc k = ?v" "visits st' ! k = last (visits st)"
        using eq lastk by (simp_all add: st' nth_append)
      then show ?thesis
        using old4 ne feed by simp
    qed
  qed
  have c4: "fed (hd (visits st')) = replicate n np_zeros \<and> sess_before (hd (visits st')) = s0
             \<and> x_gen st' = written n (last (visits st')) \<and> sess st' = sess_after (last (visits st'))"
  proof (cases "visits st = []")
    case True
    then show ?thesis using old3 feed wr by (simp add: st')
  next
    case False
    then show ?thesis using old4 wr by (simp add: st')
  qed
  have c3: "visits st' \<noteq> []" by (simp add: st')
  have "length (x_gen st') = n" by (simp add: st')
  then show ?thesis
    unfolding linked_def using c1 c2 c3 c4 by blast
qed

lemma linked_loops:
  fixes st :: "('v::zero, 's) sampler"
  assumes "sample_loops node n h w s = Inr st"
  shows "linked node n s st"
proof -
  let ?P = "\<lambda>u :: ('v, 's) sampler. linked node n s u \<and> length (x_gen u) = n"
  let ?st0 = "\<lparr>x_gen = replicate n np_zeros, sess = s, visits = []\<rparr> :: ('v, 's) sampler"
  have start: "?P ?st0" by (simp add: linked_def)
  have row: "?P v" if "?P u" and "sample_row node n w yi u = Inr v" for yi u v
  proof (rule for_each_Inr_invariant[where P="?P" and body="sample_pixel node n yi"])
    show "?P u" by (rule that(1))
    show "for_each (sample_pixel node n yi) [0..<w] u = Inr v"
      using that(2) by (simp add: sample_row_def)
  next
    fix i and u' v' :: "('v, 's) sampler"
    assume "?P u'" and "sample_pixel node n yi i u' = Inr v'"
    then show "?P v'"
      using linked_pixel[of node n s u' yi i v'] by simp
  qed
  have "?P st"
  proof (rule for_each_Inr_invariant[where P="?P" and body="sample_row node n w"])
    show "?P ?st0" by (rule start)
    show "for_each (sample_row node n w) [0..<h] ?st0 = Inr st"
      using assms by (simp add: sample_loops_def)
  next
    fix i and u' v' :: "('v, 's) sampler"
    assume "?P u'" and "sample_row node n w i u' = Inr v'"
    then show "?P v'"
      by (rule row)
  qed
  then show ?thesis by simp
qed

text \<open>
  Claim C5. In every run of the two loops of \<^verbatim>\<open>sample_from_model\<close> that ends without an
  exception (it does whenever no \<^verbatim>\<open>sess.run\<close> raises, lemma \<open>sample_loops_total\<close>), on
  \<open>n\<close> devices and an image of \<open>h\<close> rows and \<open>w\<close> columns: the positions visited are,
  in this order, the rows from the top and within a row the columns from the left; the
  order is strictly increasing in raster order; every position of the image is visited
  exactly once. Every visit is one \<^verbatim>\<open>sess.run\<close> of the sampling node: what it returned
  is the node's result on the arrays and the session it was given, and these are what
  the visit before it left, its position assigned from what that visit returned; the
  first visit is given the zero arrays and the initial session, and the result of the
  loops is what the last visit left. At the visit of a position the arrays fed hold zero
  at that position and at every position after it; what a visit wrote at its position is
  what the final arrays hold there, and the rows below the image stay zero.
  The program runs the loops with \<open>h = w = 32\<close>.
\<close>

theorem raster_scan:
  fixes st :: "('v::zero, 's) sampler"
  assumes "sample_loops node n h w s = Inr st"
  shows "map position (visits st) = List.product [0..<h] [0..<w]
       \<and> sorted_wrt raster_less (map position (visits st))
       \<and> distinct (map position (visits st))
       \<and> set (map position (visits st)) = {0..<h} \<times> {0..<w}
       \<and> (\<forall>v\<in>set (visits st). \<forall>i<n. \<forall>b y x c.
             \<not> raster_less (y, x) (position v) \<longrightarrow> (fed v ! i) b y x c = 0)
       \<and> (\<forall>v\<in>set (visits st). \<forall>i<n. \<forall>b c.
             (x_gen st ! i) b (row v) (col v) c = (returned v ! i) b (row v) (col v) c)
       \<and> (\<forall>i<n. \<forall>b y x c. h \<le> y \<longrightarrow> (x_gen st ! i) b y x c = 0)
       \<and> (visits st \<noteq> [] \<longrightarrow> fed (hd (visits st)) = replicate n np_zeros)
       \<and> (\<forall>v\<in>set (visits st). length (fed v) = n \<and> length (returned v) = n
             \<and> sess_run node (fed v) (sess_before v) = Inr (returned v, sess_after v))
       \<and> (\<forall>k. Suc k < length (visits st) \<longrightarrow>
             sess_before (visits st ! Suc k) = sess_after (visits st ! k)
             \<and> fed (visits st ! Suc k) = written n (visits st ! k))
       \<and> (visits st \<noteq> [] \<longrightarrow> sess_before (hd (visits st)) = s
             \<and> x_gen st = written n (last (visits st)) \<and> sess st = sess_after (last (visits st)))
       \<and> (visits st = [] \<longrightarrow> x_gen st = replicate n np_zeros \<and> sess st = s)"
proof -
  have inv: "scanning n w h 0 st" by (rule scanning_loops[OF assms])
  have lnk: "linked node n s st" by (rule linked_loops[OF assms])
  have pos: "map position (visits st) = List.product [0..<h] [0..<w]"
    using inv by (simp add: scanning_def raster_positions)
  have zero: "\<forall>v\<in>set (visits st). \<forall>i<n. \<forall>b y x c.
             \<not> raster_less (y, x) (position v) \<longrightarrow> (fed v ! i) b y x c = 0"
    using inv unfolding scanning_def by blast
  have kept: "\<forall>v\<in>set (visits st). \<forall>i<n. \<forall>b c.
             (x_gen st ! i) b (row v) (col v) c = (returned v ! i) b (row v) (col v) c"
    using inv unfolding scanning_def by blast
  have below: "\<forall>i<n. \<forall>b y x c. h \<le> y \<longrightarrow> (x_gen st ! i) b y x c = 0"
    using inv unfolding scanning_def raster_less_def by auto
  have first: "visits st \<noteq> [] \<longrightarrow> fed (hd (visits st)) = replicate n np_zeros"
    using lnk unfolding linked_def by blast
  have lens: "\<forall>v\<in>set (visits st). length (fed v) = n \<and> length (returned v) = n"
    using inv unfolding scanning_def by blast
  have runs: "\<forall>v\<in>set (visits st). sess_run node (fed v) (sess_before v) = Inr (returned v, sess_after v)"
    using lnk unfolding linked_def by blast
  have chain: "\<forall>k. Suc k < length (visits st) \<longrightarrow>
             sess_before (visits st ! Suc k) = sess_after (visits st ! k)
             \<and> fed (visits st ! Suc k) = written n (visits st ! k)"
    using lnk unfolding linked_def by blast
  have ends: "visits st \<noteq> [] \<longrightarrow> sess_before (hd (visits st)) = s
             \<and> x_gen st = written n (last (visits st)) \<and> sess st = sess_after (last (visits st))"
    using lnk unfolding linked_def by blast
  have none: "visits st = [] \<longrightarrow> x_gen st = replicate n np_zeros \<and> sess st = s"
    using lnk unfolding linked_def by blast
  have order: "sorted_wrt raster_less (map position (visits st))"
      "distinct (map position (visits st))"
      "set (map position (visits st)) = {0..<h} \<times> {0..<w}"
    unfolding pos using raster_sorted[of h w] by (simp_all add: distinct_product)
  have both: "\<forall>v\<in>set (visits st). length (fed v) = n \<and> length (returned v) = n
             \<and> sess_run node (fed v) (sess_before v) = Inr (returned v, sess_after v)"
    using lens runs by blast
  show ?thesis
    by (intro conjI) (fact pos order zero kept below first both chain ends none)+
qed

section \<open>The sampling transition\<close>

theorem raster_scan_witness:
  "(case sample_loops ones_node 1 2 2 0 of Inl e \<Rightarrow> [] | Inr st \<Rightarrow> map position (visits st))
     = [(0, 0), (0, 1), (1, 0), (1, 1)]
   \<and> (case sample_loops ones_node 1 2 2 0 of Inl e \<Rightarrow> [] | Inr st \<Rightarrow> fed (hd (visits st)))
     = [np_zeros]
   \<and> (case sample_loops ones_node 1 2 2 0 of Inl e \<Rightarrow> 0 | Inr st \<Rightarrow> (x_gen st ! 0) 0 1 1 0) = 1
   \<and> (case sample_loops ones_node 1 2 2 0 of Inl e \<Rightarrow> 0 | Inr st \<Rightarrow> (x_gen st ! 0) 0 0 0 0) = 1
   \<and> (case sample_loops ones_node 1 2 2 0 of Inl e \<Rightarrow> 0 | Inr st \<Rightarrow> (x_gen st ! 0) 0 2 0 0) = 0"
proof -
  have total: "\<forall>x s. \<exists>v s'. ones_node x s = Inr (v, s')"
    by (simp add: ones_node_def)
  obtain st where st: "sample_loops ones_node 1 2 2 0 = Inr st"
    using sample_loops_total[OF total, of 1 2 2 0] by blast
  note T = raster_scan[OF st]
  have p: "List.product [0..<2] [0..<2] = [(0, 0), (0, 1), (1, 0), (1, 1 :: nat)]"
    by code_simp
  from T have "map position (visits st) = List.product [0..<2] [0..<2]"
    by (elim conjE)
  then have pos: "map position (visits st) = [(0, 0), (0, 1), (1, 0), (1, 1)]"
    unfolding p .
  then have ne: "visits st \<noteq> []" by auto
  from T have "visits st \<noteq> [] \<longrightarrow> fed (hd (visits st)) = replicate 1 np_zeros"
    by (elim conjE)
  then have first: "fed (hd (visits st)) = replicate 1 np_zeros"
    using ne by simp
  from T have runs: "\<forall>v\<in>set (visits st). length (fed v) = 1 \<and> length (returned v) = 1
             \<and> sess_run ones_node (fed v) (sess_before v) = Inr (returned v, sess_after v)"
    by (elim conjE)
  have ret: "returned v ! 0 = (\<lambda>b y x c. 1)" if v: "v \<in> set (visits st)" for v
  proof -
    have l: "length (fed v) = 1"
      and r: "sess_run ones_node (fed v) (sess_before v) = Inr (returned v, sess_after v)"
      using runs v by simp_all
    obtain x where "fed v = [x]" using l by (cases "fed v") auto
    then have "Inr ([\<lambda>b y x c. 1], Suc (sess_before v)) = Inr (returned v, sess_after v)"
      using r by (simp add: ones_node_def)
    then have "returned v = [\<lambda>b y x c. 1]" by simp
    then show ?thesis by simp
  qed
  have "position (last (visits st)) = last (map position (visits st))"
    using ne by (simp add: last_map)
  then have rc: "row (last (visits st)) = 1" "col (last (visits st)) = 1"
    unfolding pos by (simp_all add: position_def)
  from T have "visits st \<noteq> [] \<longrightarrow> sess_before (hd (visits st)) = 0
             \<and> x_gen st = written 1 (last (visits st)) \<and> sess st = sess_after (last (visits st))"
    by (elim conjE)
  then have "x_gen st = written 1 (last (visits st))"
    using ne by simp
  then have last_value: "(x_gen st ! 0) 0 1 1 0 = 1"
    using ret[of "last (visits st)"] ne rc by (simp add: written_def assign_pixel_def)
  have "position (hd (visits st)) = hd (map position (visits st))"
    using ne by (simp add: hd_map)
  then have rc0: "row (hd (visits st)) = 0" "col (hd (visits st)) = 0"
    unfolding pos by (simp_all add: position_def)
  from T have kept: "\<forall>v\<in>set (visits st). \<forall>i<1. \<forall>b c.
             (x_gen st ! i) b (row v) (col v) c = (returned v ! i) b (row v) (col v) c"
    by (elim conjE)
  have "(x_gen st ! 0) 0 (row (hd (visits st))) (col (hd (visits st))) 0
      = (returned (hd (visits st)) ! 0) 0 (row (hd (visits st))) (col (hd (visits st))) 0"
    using kept ne by simp
  then have first_value: "(x_gen st ! 0) 0 0 0 0 = 1"
    using ret[of "hd (visits st)"] ne rc0 by simp
  from T have below: "\<forall>i<1. \<forall>b y x c. 2 \<le> y \<longrightarrow> (x_gen st ! i) b y x c = 0"
    by (elim conjE)
  then have below_value: "(x_gen st ! 0) 0 2 0 0 = 0" by simp
  show ?thesis
    unfolding st using pos first last_value first_value below_value by simp
qed

lemma sess_run_new_x_gen:
  "\<exists>vs s'. sess_run (new_x_gen net a) xs s = Inr (vs, s')
     \<and> live s' = live s \<and> shadow s' = shadow s \<and> slots s' = slots s
     \<and> (\<forall>i<length xs. \<exists>r. vs ! i =
           fst (sample_from_discretized_mix_logistic net (model_spec net (live s) (xs ! i) 0)
                  (nr_logistic_mix a) r))"
proof (induction xs arbitrary: s)
  case Nil
  then show ?case by simp
next
  case (Cons x xs)
  let ?drawn = "sample_from_discretized_mix_logistic net (model_spec net (live s) x 0)
                  (nr_logistic_mix a) (rng s)"
  let ?s1 = "s\<lparr>rng := snd ?drawn\<rparr>"
  have node: "new_x_gen net a x s = Inr (fst ?drawn, ?s1)"
    by (simp add: new_x_gen_def model_def params_read_def Let_def)
  obtain vs s' where rest: "sess_run (new_x_gen net a) xs ?s1 = Inr (vs, s')"
    "live s' = live ?s1" "shadow s' = shadow ?s1" "slots s' = slots ?s1"
    "\<forall>i<length xs. \<exists>r. vs ! i =
           fst (sample_from_discretized_mix_logistic net (model_spec net (live ?s1) (xs ! i) 0)
                  (nr_logistic_mix a) r)"
    using Cons.IH[of ?s1] by blast
  have all: "\<exists>r. (fst ?drawn # vs) ! i =
           fst (sample_from_discretized_mix_logistic net (model_spec net (live s) ((x # xs) ! i) 0)
                  (nr_logistic_mix a) r)" if "i < length (x # xs)" for i
  proof (cases i)
    case 0
    then show ?thesis by auto
  next
    case (Suc k)
    then show ?thesis using rest(5) that by simp
  qed
  have run: "sess_run (new_x_gen net a) (x # xs) s = Inr (fst ?drawn # vs, s')"
    using node rest(1) by simp
  show ?case
  proof (intro exI conjI)
    show "sess_run (new_x_gen net a) (x # xs) s = Inr (fst ?drawn # vs, s')" by (rule run)
    show "live s' = live s" using rest(2) by simp
    show "shadow s' = shadow s" using rest(3) by simp
    show "slots s' = slots s" using rest(4) by simp
    show "\<forall>i<length (x # xs). \<exists>r. (fst ?drawn # vs) ! i =
           fst (sample_from_discretized_mix_logistic net (model_spec net (live s) ((x # xs) ! i) 0)
                  (nr_logistic_mix a) r)"
      using all by blast
  qed
qed

text \<open>
  Claim C1, as amended. At every position \<open>(yi, xi)\<close> the transition of the sampler
  succeeds; on every device it runs the model function on the entire current array with
  the variables themselves (\<^verbatim>\<open>ema=None\<close>, not the shadow variables) and dropout
  probability 0, draws a sample from the distribution returned, and writes the sample's
  values at \<open>(yi, xi)\<close> into the array; no other position of the array changes, and
  neither the variables nor the shadow variables do.
\<close>

theorem sampler_transition:
  "\<exists>st'. sample_pixel (new_x_gen net a) n yi xi st = Inr st'
     \<and> live (sess st') = live (sess st) \<and> shadow (sess st') = shadow (sess st)
     \<and> (\<forall>i<n. \<exists>r. x_gen st' ! i = assign_pixel yi xi
           (fst (sample_from_discretized_mix_logistic net
                   (model_spec net (live (sess st)) (x_gen st ! i) 0) (nr_logistic_mix a) r))
           (x_gen st ! i))
     \<and> (\<forall>i<n. \<forall>b y x c. (y, x) \<noteq> (yi, xi) \<longrightarrow> (x_gen st' ! i) b y x c = (x_gen st ! i) b y x c)"
proof -
  let ?feed = "map (\<lambda>i. x_gen st ! i) [0..<n]"
  obtain vs s' where run: "sess_run (new_x_gen net a) ?feed (sess st) = Inr (vs, s')"
    "live s' = live (sess st)" "shadow s' = shadow (sess st)"
    "\<forall>i<length ?feed. \<exists>r. vs ! i =
           fst (sample_from_discretized_mix_logistic net (model_spec net (live (sess st)) (?feed ! i) 0)
                  (nr_logistic_mix a) r)"
    using sess_run_new_x_gen[of net a ?feed "sess st"] by blast
  let ?st' = "\<lparr>x_gen = map (\<lambda>i. assign_pixel yi xi (vs ! i) (x_gen st ! i)) [0..<n],
               sess = s', visits = visits st @ [\<lparr>row = yi, col = xi, fed = ?feed, sess_before = sess st,
                 returned = vs, sess_after = s'\<rparr>]\<rparr>"
  have 1: "sample_pixel (new_x_gen net a) n yi xi st = Inr ?st'"
    using run(1) by (simp add: sample_pixel_def)
  have 2: "\<forall>i<n. \<exists>r. x_gen ?st' ! i = assign_pixel yi xi
           (fst (sample_from_discretized_mix_logistic net
                   (model_spec net (live (sess st)) (x_gen st ! i) 0) (nr_logistic_mix a) r))
           (x_gen st ! i)"
  proof (intro allI impI)
    fix i assume i: "i < n"
    then obtain r where "vs ! i =
           fst (sample_from_discretized_mix_logistic net (model_spec net (live (sess st)) (?feed ! i) 0)
                  (nr_logistic_mix a) r)"
      using run(4) by auto
    then have "x_gen ?st' ! i = assign_pixel yi xi
           (fst (sample_from_discretized_mix_logistic net
                   (model_spec net (live (sess st)) (x_gen st ! i) 0) (nr_logistic_mix a) r))
           (x_gen st ! i)"
      using i by simp
    then show "\<exists>r. x_gen ?st' ! i = assign_pixel yi xi
           (fst (sample_from_discretized_mix_logistic net
                   (model_spec net (live (sess st)) (x_gen st ! i) 0) (nr_logistic_mix a) r))
           (x_gen st ! i)" by (rule exI[of _ r])
  qed
  have 3: "\<forall>i<n. \<forall>b y x c. (y, x) \<noteq> (yi, xi) \<longrightarrow> (x_gen ?st' ! i) b y x c = (x_gen st ! i) b y x c"
    by (auto simp: assign_pixel_def)
  have 4: "live (sess ?st') = live (sess st)" "shadow (sess ?st') = shadow (sess st)"
    using run(2,3) by simp_all
  show ?thesis
    by (intro exI[of _ ?st'] conjI) (rule 1 4 2 3)+
qed

theorem sampler_transition_witness:
  "(case sample_pixel (new_x_gen probe_net default_args) (Suc 0) 0 0
          \<lparr>x_gen = [np_zeros], sess = probe_session, visits = []\<rparr> of
      Inl e \<Rightarrow> None | Inr st' \<Rightarrow> Some ((x_gen st' ! 0) 0 0 0 0, (x_gen st' ! 0) 0 0 1 0))
     = Some (1, 0)"
proof -
  let ?st = "\<lparr>x_gen = [np_zeros], sess = probe_session, visits = []\<rparr> :: (real, (unit, unit) session) sampler"
  from sampler_transition[of probe_net default_args "Suc 0" 0 0 ?st]
  obtain st' where st': "sample_pixel (new_x_gen probe_net default_args) (Suc 0) 0 0 ?st = Inr st'"
    and drawn: "\<forall>i<Suc 0. \<exists>r. x_gen st' ! i = assign_pixel 0 0
           (fst (sample_from_discretized_mix_logistic probe_net
                   (model_spec probe_net (live (sess ?st)) (x_gen ?st ! i) 0)
                   (nr_logistic_mix default_args) r))
           (x_gen ?st ! i)"
    by (elim exE conjE)
  from drawn have "\<exists>r. x_gen st' ! 0 = assign_pixel 0 0
           (fst (sample_from_discretized_mix_logistic probe_net
                   (model_spec probe_net (live (sess ?st)) (x_gen ?st ! 0) 0)
                   (nr_logistic_mix default_args) r))
           (x_gen ?st ! 0)"
    by (elim allE[of _ 0] impE) simp_all
  then obtain r where r: "x_gen st' ! 0 = assign_pixel 0 0
           (fst (sample_from_discretized_mix_logistic probe_net
                   (model_spec probe_net (live (sess ?st)) (x_gen ?st ! 0) 0)
                   (nr_logistic_mix default_args) r))
           (x_gen ?st ! 0)"
    by (elim exE)
  have v: "(x_gen st' ! 0) 0 0 0 0 = 1" "(x_gen st' ! 0) 0 0 1 0 = 0"
    unfolding r by (simp_all add: probe_net_def probe_session_def assign_pixel_def np_zeros_def)
  show ?thesis
    unfolding st' using v by simp
qed

text \<open>
  The claim C1 as stated fails: with a variable of value 1 and a shadow variable of value
  2, the value written at position \<open>(0, 0)\<close> is the sample computed from the variable,
  1, and not the one computed from the shadow variable, 2.
\<close>

theorem sampler_reads_live_not_shadow:
  "(case sample_pixel (new_x_gen probe_net default_args) (Suc 0) 0 0
          \<lparr>x_gen = [np_zeros], sess = probe_session, visits = []\<rparr> of
      Inl e \<Rightarrow> None | Inr st' \<Rightarrow> Some ((x_gen st' ! 0) 0 0 0 0))
     = Some (fst (sample_from_discretized_mix_logistic probe_net
                   (model_spec probe_net (live probe_session) np_zeros 0) 10 ()) 0 0 0 0)
   \<and> fst (sample_from_discretized_mix_logistic probe_net
                   (model_spec probe_net (live probe_session) np_zeros 0) 10 ()) 0 0 0 0 = 1
   \<and> fst (sample_from_discretized_mix_logistic probe_net
                   (model_spec probe_net (shadow probe_session) np_zeros 0) 10 ()) 0 0 0 0 = 2"
  by (simp add: sample_pixel_def new_x_gen_def model_def params_read_def probe_net_def
      probe_session_def assign_pixel_def default_args_def)

section \<open>The training loop: control structure\<close>

lemma final_world_simps [simp]:
  "final_world (Inl (e, w)) = w" "final_world (Inr w) = w"
  by (simp_all add: final_world_def)

lemma for_each_final_world:
  assumes "P w" and "\<And>i u. i \<in> set xs \<Longrightarrow> P u \<Longrightarrow> P (final_world (body i u))"
  shows "P (final_world (for_each body xs w))"
  using assms
proof (induction xs arbitrary: w)
  case Nil
  then show ?case by simp
next
  case (Cons i xs)
  have step: "P (final_world (body i w))"
    using Cons.prems by simp
  show ?case
  proof (cases "body i w")
    case (Inl x)
    then show ?thesis using step by (cases x) simp
  next
    case (Inr u)
    then have "P u" using step by simp
    then have "P (final_world (for_each body xs u))"
      using Cons.prems(2) by (intro Cons.IH) simp_all
    then show ?thesis using Inr by simp
  qed
qed

lemma for_each_upt_outcome:
  assumes "P m w" and "m \<le> n"
    and "\<And>i u. m \<le> i \<Longrightarrow> i < n \<Longrightarrow> P i u \<Longrightarrow>
           (case body i u of Inl (e, v) \<Rightarrow> E v | Inr v \<Rightarrow> P (Suc i) v)"
  shows "case for_each body [m..<n] w of Inl (e, v) \<Rightarrow> E v | Inr v \<Rightarrow> P n v"
  using assms
proof (induction "n - m" arbitrary: m w)
  case 0
  then show ?case by simp
next
  case (Suc k)
  then have mn: "m < n" by simp
  have step: "case body m w of Inl (e, v) \<Rightarrow> E v | Inr v \<Rightarrow> P (Suc m) v"
    using Suc.prems(1,3) mn by simp
  show ?case
  proof (cases "body m w")
    case (Inl x)
    then show ?thesis using step mn by (cases x) (simp add: upt_rec[of m n])
  next
    case (Inr v)
    then have "P (Suc m) v" using step by simp
    moreover have "k = n - Suc m" using Suc.hyps(2) by simp
    moreover have "Suc m \<le> n" using mn by simp
    ultimately have "case for_each body [Suc m..<n] v of Inl (e, v) \<Rightarrow> E v | Inr v \<Rightarrow> P n v"
      using Suc.prems(3) by (intro Suc.hyps(1)) auto
    then show ?thesis using Inr mn by (simp add: upt_rec[of m n])
  qed
qed

section \<open>The calls that the session receives\<close>

lemma recording_fields:
  "run_initializer (recording ops) (s, cs) =
     (case run_initializer ops s of Inl e \<Rightarrow> Inl e | Inr s' \<Rightarrow> Inr (s', cs @ [Call_initializer]))"
  "saver_restore (recording ops) f (s, cs) =
     (case saver_restore ops f s of Inl e \<Rightarrow> Inl e | Inr s' \<Rightarrow> Inr (s', cs @ [Call_restore f]))"
  "run_init_pass (recording ops) feed (s, cs) =
     (case run_init_pass ops feed s of Inl e \<Rightarrow> Inl e | Inr s' \<Rightarrow> Inr (s', cs @ [Call_init_pass feed]))"
  "run_train (recording ops) feed rate (s, cs) =
     (case run_train ops feed rate s of Inl e \<Rightarrow> Inl e
      | Inr (l, s') \<Rightarrow> Inr (l, (s', cs @ [Call_train feed rate])))"
  "run_new_x_gen (recording ops) x (s, cs) =
     (case run_new_x_gen ops x s of Inl e \<Rightarrow> Inl e | Inr (v, s') \<Rightarrow> Inr (v, (s', cs)))"
  by (simp_all add: recording_def)

lemma calls_frame [simp]:
  "calls (w\<lparr>w_lr := r\<rparr>) = calls w" "calls (w\<lparr>w_losses := l\<rparr>) = calls w"
  "calls (w\<lparr>w_sample_x := x\<rparr>) = calls w" "calls (log_event ev w) = calls w"
  "calls (w\<lparr>w_sess := sc\<rparr>) = snd sc"
  by (simp_all add: calls_def log_event_def)

lemma log_event_fields [simp]:
  "w_lr (log_event ev w) = w_lr w" "w_sess (log_event ev w) = w_sess w"
  "w_losses (log_event ev w) = w_losses w" "w_sample_x (log_event ev w) = w_sample_x w"
  "w_trace (log_event ev w) = w_trace w @ [ev]"
  by (simp_all add: log_event_def)

lemma session_call_recorded:
  assumes "\<And>s cs. f (s, cs) = (case g s of Inl e \<Rightarrow> Inl e | Inr s' \<Rightarrow> Inr (s', cs @ [c]))"
  shows "case session_call ev f w of
           Inl (e, u) \<Rightarrow> calls u = calls w \<and> w_lr u = w_lr w
         | Inr u \<Rightarrow> calls u = calls w @ [c] \<and> w_lr u = w_lr w"
proof -
  obtain s cs where sc: "w_sess w = (s, cs)" by (cases "w_sess w")
  show ?thesis
    by (cases "g s") (simp_all add: session_call_def sc assms calls_def)
qed

lemma init_block_calls:
  assumes "calls w = []"
  shows "case init_block ev (recording ops) a (stream 0) w of
           Inl (e, u) \<Rightarrow> strict_prefix (calls u) (init_calls ev a stream) \<and> w_lr u = w_lr w
         | Inr (it, u) \<Rightarrow> calls u = init_calls ev a stream \<and> w_lr u = w_lr w
              \<and> it = (if load_params a then stream 0 else tl (stream 0))"
proof (cases "load_params a")
  case True
  have "case session_call (Saver_restore (ckpt_file ev a))
               (saver_restore (recording ops) (ckpt_file ev a)) w of
           Inl (e, u) \<Rightarrow> calls u = calls w \<and> w_lr u = w_lr w
         | Inr u \<Rightarrow> calls u = calls w @ [Call_restore (ckpt_file ev a)] \<and> w_lr u = w_lr w"
    by (rule session_call_recorded) (simp add: recording_fields)
  then show ?thesis
    using True assms by (auto simp: init_block_def init_calls_def split: sum.splits)
next
  case False
  have one: "case session_call Run_initializer (run_initializer (recording ops)) w of
           Inl (e, u) \<Rightarrow> calls u = calls w \<and> w_lr u = w_lr w
         | Inr u \<Rightarrow> calls u = calls w @ [Call_initializer] \<and> w_lr u = w_lr w"
    by (rule session_call_recorded) (simp add: recording_fields)
  show ?thesis
  proof (cases "session_call Run_initializer (run_initializer (recording ops)) w")
    case (Inl x)
    then show ?thesis
      using one False assms by (cases x) (simp add: init_block_def init_calls_def)
  next
    case (Inr w1)
    then have w1: "calls w1 = [Call_initializer]" "w_lr w1 = w_lr w"
      using one assms by simp_all
    show ?thesis
    proof (cases "stream 0")
      case Nil
      then show ?thesis
        using Inr False w1 by (simp add: init_block_def init_calls_def)
    next
      case (Cons d rest)
      have feed: "make_feed_dict a d True = Inr (Feed_x_init (scaled d))"
        by (simp add: make_feed_dict_def)
      have two: "case session_call (Run_init_pass (Feed_x_init (scaled d)))
               (run_init_pass (recording ops) (Feed_x_init (scaled d))) w1 of
           Inl (e, u) \<Rightarrow> calls u = calls w1 \<and> w_lr u = w_lr w1
         | Inr u \<Rightarrow> calls u = calls w1 @ [Call_init_pass (Feed_x_init (scaled d))] \<and> w_lr u = w_lr w1"
        by (rule session_call_recorded) (simp add: recording_fields)
      then show ?thesis
        using Inr False Cons feed w1
        by (auto simp: init_block_def init_calls_def split: sum.splits)
    qed
  qed
qed

lemma length_scaled [simp]: "length (scaled d) = length d"
  by (simp add: scaled_def)

lemma train_step_calls:
  assumes "w_lr w = learning_rate a * lr_decay a ^ m"
  shows "case train_step (recording ops) a d w of
           Inl (e, u) \<Rightarrow> calls u = calls w
         | Inr u \<Rightarrow> calls u = calls w @ train_calls a m [d]
              \<and> w_lr u = learning_rate a * lr_decay a ^ Suc m"
proof (cases "make_feed_dict a d False")
  case (Inl e)
  then show ?thesis by (simp add: train_step_def)
next
  case (Inr feed)
  have feed: "feed = Feed_xs (map (\<lambda>i. take (length d div nat (nr_gpu a))
                                  (drop (i * (length d div nat (nr_gpu a))) (scaled d)))
                            [0..<nat (nr_gpu a)])"
    using Inr by (auto simp: make_feed_dict_def np_split_def and_then_def Let_def split: if_splits)
  obtain s cs where sc: "w_sess w = (s, cs)" by (cases "w_sess w")
  have rate: "w_lr w * lr_decay a = learning_rate a * lr_decay a ^ Suc m"
    by (simp add: assms)
  show ?thesis
    using Inr sc feed[symmetric] rate
    by (cases "run_train ops feed (w_lr w * lr_decay a) s")
       (auto simp: train_step_def Let_def recording_fields calls_def split: sum.splits)
qed

lemma train_loop_calls:
  assumes "w_lr w = learning_rate a * lr_decay a ^ m"
  shows "case for_each (train_step (recording ops) a) ds w of
           Inl (e, u) \<Rightarrow> prefix (calls u) (calls w @ train_calls a m ds)
         | Inr u \<Rightarrow> calls u = calls w @ train_calls a m ds
              \<and> w_lr u = learning_rate a * lr_decay a ^ (m + length ds)"
  using assms
proof (induction ds arbitrary: w m)
  case Nil
  then show ?case by simp
next
  case (Cons d ds)
  note step = train_step_calls[OF Cons.prems, where ops=ops and d=d]
  show ?case
  proof (cases "train_step (recording ops) a d w")
    case (Inl x)
    then show ?thesis using step by (cases x) simp
  next
    case (Inr w1)
    then have w1: "calls w1 = calls w @ train_calls a m [d]"
      "w_lr w1 = learning_rate a * lr_decay a ^ Suc m"
      using step by simp_all
    have "case for_each (train_step (recording ops) a) ds w1 of
           Inl (e, u) \<Rightarrow> prefix (calls u) (calls w1 @ train_calls a (Suc m) ds)
         | Inr u \<Rightarrow> calls u = calls w1 @ train_calls a (Suc m) ds
              \<and> w_lr u = learning_rate a * lr_decay a ^ (Suc m + length ds)"
      by (rule Cons.IH) (rule w1(2))
    then show ?thesis
      using Inr w1(1) by (auto split: sum.splits)
  qed
qed

section \<open>Sampling with a recording session\<close>

lemma for_each_sim:
  assumes "R st st'"
    and "\<And>i u u'. R u u' \<Longrightarrow> rel_sum E R (body i u) (body' i u')"
  shows "rel_sum E R (for_each body xs st) (for_each body' xs st')"
  using assms(1)
proof (induction xs arbitrary: st st')
  case Nil
  then show ?case by simp
next
  case (Cons i xs)
  have step: "rel_sum E R (body i st) (body' i st')"
    using Cons.prems by (rule assms(2))
  show ?case
  proof (cases "body i st")
    case (Inl e)
    then show ?thesis using step by (cases "body' i st'") simp_all
  next
    case (Inr u)
    then obtain u' where u': "body' i st' = Inr u'" and r: "R u u'"
      using step by (cases "body' i st'") simp_all
    show ?thesis using Cons.IH[OF r] Inr u' by simp
  qed
qed

lemma sess_run_recording_eq:
  "sess_run (run_new_x_gen (recording ops)) xs (s, cs) =
     (case sess_run (run_new_x_gen ops) xs s of
        Inl e \<Rightarrow> Inl e | Inr (vs, s') \<Rightarrow> Inr (vs, (s', cs)))"
  by (induction xs arbitrary: s) (auto simp: recording_fields split: sum.splits)

lemma sample_pixel_sim:
  assumes "x_gen u = x_gen u' \<and> sess u = (sess u', cs)"
  shows "rel_sum (=) (\<lambda>v v'. x_gen v = x_gen v' \<and> sess v = (sess v', cs))
           (sample_pixel (run_new_x_gen (recording ops)) n yi xi u)
           (sample_pixel (run_new_x_gen ops) n yi xi u')"
  using assms
  by (auto simp: sample_pixel_def sess_run_recording_eq split: sum.splits)

lemma sample_loops_sim:
  "rel_sum (=) (\<lambda>v v'. x_gen v = x_gen v' \<and> sess v = (sess v', cs))
     (sample_loops (run_new_x_gen (recording ops)) n h w (s, cs))
     (sample_loops (run_new_x_gen ops) n h w s)"
  unfolding sample_loops_def sample_row_def
  by (intro for_each_sim sample_pixel_sim) simp_all

lemma sample_from_model_recording_eq:
  "sample_from_model (run_new_x_gen (recording ops)) a (s, cs) =
     (case sample_from_model (run_new_x_gen ops) a s of
        Inl e \<Rightarrow> Inl e | Inr (images, s') \<Rightarrow> Inr (images, (s', cs)))"
proof -
  let ?n = "nat (nr_gpu a)" and ?h = "obs_shape ! 0" and ?w = "obs_shape ! 1"
  note sim = sample_loops_sim[where ops=ops and n="?n" and h="?h" and w="?w" and s=s and cs=cs]
  show ?thesis
  proof (cases "sample_loops (run_new_x_gen ops) ?n ?h ?w s")
    case (Inl e)
    then have "sample_loops (run_new_x_gen (recording ops)) ?n ?h ?w (s, cs) = Inl e"
      using sim by (cases "sample_loops (run_new_x_gen (recording ops)) ?n ?h ?w (s, cs)") simp_all
    then show ?thesis using Inl unfolding sample_from_model_def by simp
  next
    case (Inr st')
    then obtain st where st: "sample_loops (run_new_x_gen (recording ops)) ?n ?h ?w (s, cs) = Inr st"
      and r: "x_gen st = x_gen st'" "sess st = (sess st', cs)"
      using sim by (cases "sample_loops (run_new_x_gen (recording ops)) ?n ?h ?w (s, cs)") simp_all
    show ?thesis
      unfolding sample_from_model_def st Inr
      by (simp add: r split: sum.splits)
  qed
qed

lemma draw_sample_calls:
  "calls (final_world (draw_sample (recording ops) a i w)) = calls w
   \<and> w_lr (final_world (draw_sample (recording ops) a i w)) = w_lr w"
proof -
  obtain s cs where sc: "w_sess w = (s, cs)" by (cases "w_sess w")
  show ?thesis
    by (auto simp: draw_sample_def calls_def sc sample_from_model_recording_eq split: sum.splits)
qed

lemma save_block_calls:
  "calls (final_world (save_block ev (recording ops) a epoch w)) = calls w
   \<and> w_lr (final_world (save_block ev (recording ops) a epoch w)) = w_lr w"
proof -
  let ?P = "\<lambda>u. calls u = calls w \<and> w_lr u = w_lr w"
  let ?r = "for_each (draw_sample (recording ops) a) [0..<nat (num_samples a)] (w\<lparr>w_sample_x := []\<rparr>)"
  have loop: "?P (final_world ?r)"
    by (rule for_each_final_world[where P="?P"]) (simp_all add: draw_sample_calls)
  show ?thesis
  proof (cases ?r)
    case (Inl x)
    then show ?thesis using loop by (cases x) (simp add: save_block_def)
  next
    case (Inr w1)
    then show ?thesis
      using loop by (auto simp: save_block_def split: sum.splits)
  qed
qed

section \<open>The calls of a whole run\<close>

lemma train_calls_append:
  "train_calls a m (xs @ ys) = train_calls a m xs @ train_calls a (m + length xs) ys"
  by (induction xs arbitrary: m) simp_all

lemma batches_before_Suc:
  "batches_before a stream (Suc k) =
     batches_before a stream k
     @ (if k = 0 then (if load_params a then stream 0 else tl (stream 0)) else stream k)"
proof (cases k)
  case 0
  then show ?thesis by (simp add: batches_before_def)
next
  case (Suc j)
  have "[1..<Suc (Suc j)] = [1..<Suc j] @ [Suc j]" by simp
  then show ?thesis using Suc by (simp add: batches_before_def del: upt_Suc)
qed

lemma expected_calls_Suc:
  "expected_calls ev a stream (Suc k) =
     (if k = 0 then init_calls ev a stream else expected_calls ev a stream k)
     @ train_calls a (length (batches_before a stream k))
         (if k = 0 then (if load_params a then stream 0 else tl (stream 0)) else stream k)"
proof (cases k)
  case 0
  then show ?thesis by (simp add: expected_calls_def batches_before_def)
next
  case (Suc j)
  show ?thesis
    unfolding Suc expected_calls_def batches_before_Suc[of a stream "Suc j"]
    by (simp add: train_calls_append)
qed

lemma expected_calls_prefix:
  "k \<le> n \<Longrightarrow> prefix (expected_calls ev a stream k) (expected_calls ev a stream n)"
proof (induction n)
  case 0
  then show ?case by simp
next
  case (Suc n)
  show ?case
  proof (cases "k = Suc n")
    case True
    then show ?thesis by simp
  next
    case False
    then have "k \<le> n" using Suc.prems by simp
    then have p: "prefix (expected_calls ev a stream k) (expected_calls ev a stream n)"
      by (rule Suc.IH)
    have "prefix (expected_calls ev a stream n) (expected_calls ev a stream (Suc n))"
      by (cases "n = 0") (simp_all add: expected_calls_Suc, simp add: expected_calls_def)
    with p show ?thesis by (rule prefix_order.trans)
  qed
qed

lemma epoch_body_calls:
  assumes inv: "at_epoch ev a stream k w"
  shows "case epoch_body ev (recording ops) a stream k w of
           Inl (e, u) \<Rightarrow> prefix (calls u) (expected_calls ev a stream (Suc k))
         | Inr u \<Rightarrow> at_epoch ev a stream (Suc k) u"
proof -
  let ?bs = "if k = 0 then (if load_params a then stream 0 else tl (stream 0)) else stream k"
  let ?cs = "if k = 0 then init_calls ev a stream else expected_calls ev a stream k"
  let ?m = "length (batches_before a stream k)"
  let ?start = "if k = 0 then init_block ev (recording ops) a (stream k) w else Inr (stream k, w)"
  have w: "calls w = expected_calls ev a stream k" "w_lr w = learning_rate a * lr_decay a ^ ?m"
    using inv by (simp_all add: at_epoch_def)
  have start: "case ?start of
           Inl (e, u) \<Rightarrow> strict_prefix (calls u) ?cs
         | Inr (it, u) \<Rightarrow> calls u = ?cs \<and> w_lr u = w_lr w \<and> it = ?bs"
  proof (cases "k = 0")
    case True
    then have "calls w = []" using w(1) by (simp add: expected_calls_def)
    then show ?thesis
      using init_block_calls[where w=w and ev=ev and ops=ops and a=a and stream=stream] True by (auto split: sum.splits)
  next
    case False
    then show ?thesis using w(1) by simp
  qed
  show ?thesis
  proof (cases ?start)
    case (Inl x)
    obtain e u where x: "x = (e, u)" by (cases x)
    have "strict_prefix (calls u) ?cs" using start Inl x by simp
    then have "prefix (calls u) ?cs" by (simp add: strict_prefix_def)
    then have "prefix (calls u) (?cs @ train_calls a ?m ?bs)" by (rule prefix_prefix)
    then have "prefix (calls u) (expected_calls ev a stream (Suc k))"
      unfolding expected_calls_Suc .
    then show ?thesis using Inl x by (simp add: epoch_body_def)
  next
    case (Inr y)
    obtain it w1 where y: "y = (it, w1)" by (cases y)
    have w1: "calls w1 = ?cs" "w_lr w1 = learning_rate a * lr_decay a ^ ?m" "it = ?bs"
      using start Inr y w(2) by simp_all
    let ?w1 = "w1\<lparr>w_losses := []\<rparr>"
    have lr1: "w_lr ?w1 = learning_rate a * lr_decay a ^ ?m" using w1(2) by simp
    note loop = train_loop_calls[OF lr1, where ops=ops and ds="?bs"]
    show ?thesis
    proof (cases "for_each (train_step (recording ops) a) ?bs ?w1")
      case l: (Inl x)
      obtain e u where x: "x = (e, u)" by (cases x)
      have "prefix (calls u) (expected_calls ev a stream (Suc k))"
        using loop l x w1(1) by (simp add: expected_calls_Suc)
      then show ?thesis
        using Inr y l x w1(3) by (simp add: epoch_body_def)
    next
      case r: (Inr w2)
      have w2: "calls w2 = expected_calls ev a stream (Suc k)"
        "w_lr w2 = learning_rate a * lr_decay a ^ length (batches_before a stream (Suc k))"
        using loop r w1(1) by (simp_all add: expected_calls_Suc batches_before_Suc)
      let ?w3 = "log_event (Report k (np_mean (w_losses w2))) w2"
      have w3: "calls ?w3 = expected_calls ev a stream (Suc k)"
        "w_lr ?w3 = learning_rate a * lr_decay a ^ length (batches_before a stream (Suc k))"
        using w2 by simp_all
      have save: "calls (final_world (save_block ev (recording ops) a k ?w3))
            = expected_calls ev a stream (Suc k)
          \<and> w_lr (final_world (save_block ev (recording ops) a k ?w3))
            = learning_rate a * lr_decay a ^ length (batches_before a stream (Suc k))"
        using save_block_calls[where ev=ev and ops=ops and a=a and epoch=k and w="?w3"] w3 by simp
      have "case (if save_interval a = 0 then Inl (ZeroDivisionError, ?w3)
                   else if int k mod save_interval a = 0 then save_block ev (recording ops) a k ?w3
                   else Inr ?w3) of
           Inl (e, u) \<Rightarrow> prefix (calls u) (expected_calls ev a stream (Suc k))
         | Inr u \<Rightarrow> at_epoch ev a stream (Suc k) u"
        using save w3 by (auto simp: at_epoch_def split: sum.splits)
      then show ?thesis
        using Inr y r w1(3) by (simp add: epoch_body_def Let_def)
    qed
  qed
qed

lemma prepare_dir_calls:
  "calls (final_world (prepare_dir ev a w)) = calls w
   \<and> w_lr (final_world (prepare_dir ev a w)) = w_lr w"
  by (simp add: prepare_dir_def split: option.splits)

lemma session_protocol:
  "case train_py ev (recording ops) a stream (s0, []) of
     Inl (e, u) \<Rightarrow> prefix (calls u) (expected_calls ev a stream (nat (max_epochs a)))
   | Inr u \<Rightarrow> at_epoch ev a stream (nat (max_epochs a)) u"
proof (cases "graph_error ev a")
  case (Some e)
  then show ?thesis by (simp add: train_py_def blank_world_def calls_def)
next
  case None
  let ?w0 = "blank_world a (s0, []) :: ('a \<times> call list, 'b) world"
  show ?thesis
  proof (cases "prepare_dir ev a ?w0")
    case (Inl x)
    obtain e u where x: "x = (e, u)" by (cases x)
    have "calls u = []"
      using prepare_dir_calls[where ev=ev and a=a and w="?w0"] Inl x by (simp add: blank_world_def calls_def)
    then show ?thesis using None Inl x by (simp add: train_py_def)
  next
    case (Inr w)
    have w: "calls w = []" "w_lr w = learning_rate a"
      using prepare_dir_calls[where ev=ev and a=a and w="?w0"] Inr by (simp_all add: blank_world_def calls_def)
    have start: "at_epoch ev a stream 0 (log_event Open_session w)"
      using w by (simp add: at_epoch_def expected_calls_def batches_before_def)
    have "case for_each (epoch_body ev (recording ops) a stream) [0..<nat (max_epochs a)]
                 (log_event Open_session w) of
            Inl (e, u) \<Rightarrow> prefix (calls u) (expected_calls ev a stream (nat (max_epochs a)))
          | Inr u \<Rightarrow> at_epoch ev a stream (nat (max_epochs a)) u"
    proof (rule for_each_upt_outcome[where P="at_epoch ev a stream"])
      show "at_epoch ev a stream 0 (log_event Open_session w)" by (rule start)
      show "0 \<le> nat (max_epochs a)" by simp
    next
      fix i :: nat and u :: "('a \<times> call list, 'b) world"
      assume i: "i < nat (max_epochs a)" and u: "at_epoch ev a stream i u"
      have "prefix (expected_calls ev a stream (Suc i)) (expected_calls ev a stream (nat (max_epochs a)))"
        using i by (intro expected_calls_prefix) simp
      then show "case epoch_body ev (recording ops) a stream i u of
              Inl (e, v) \<Rightarrow> prefix (calls v) (expected_calls ev a stream (nat (max_epochs a)))
            | Inr v \<Rightarrow> at_epoch ev a stream (Suc i) v"
        using epoch_body_calls[OF u, where ops=ops]
        by (auto split: sum.splits intro: prefix_order.trans)
    qed
    then show ?thesis using None Inr by (simp add: train_py_def)
  qed
qed

section \<open>Recording changes nothing\<close>

lemma forget_simps [simp]:
  "forget (w\<lparr>w_lr := r\<rparr>) = (forget w)\<lparr>w_lr := r\<rparr>"
  "forget (w\<lparr>w_losses := l\<rparr>) = (forget w)\<lparr>w_losses := l\<rparr>"
  "forget (w\<lparr>w_sample_x := x\<rparr>) = (forget w)\<lparr>w_sample_x := x\<rparr>"
  "forget (w\<lparr>w_sess := sc\<rparr>) = (forget w)\<lparr>w_sess := fst sc\<rparr>"
  "forget (log_event ev w) = log_event ev (forget w)"
  "w_sess (forget w) = fst (w_sess w)" "w_lr (forget w) = w_lr w"
  "w_losses (forget w) = w_losses w" "w_sample_x (forget w) = w_sample_x w"
  "w_trace (forget w) = w_trace w"
  by (simp_all add: forget_def log_event_def)

lemma session_call_sim:
  assumes "\<And>s cs. f (s, cs) = (case g s of Inl e \<Rightarrow> Inl e | Inr s' \<Rightarrow> Inr (s', cs @ [c]))"
  shows "session_call ev g (forget w) = forget_outcome (session_call ev f w)"
proof -
  obtain s cs where sc: "w_sess w = (s, cs)" by (cases "w_sess w")
  show ?thesis
    by (cases "g s") (simp_all add: session_call_def sc assms forget_outcome_def)
qed

lemma init_block_sim:
  "init_block ev ops a it (forget w) =
     map_sum (map_prod id forget) (map_prod id forget) (init_block ev (recording ops) a it w)"
proof -
  have restore: "session_call (Saver_restore (ckpt_file ev a)) (saver_restore ops (ckpt_file ev a)) (forget w)
      = forget_outcome (session_call (Saver_restore (ckpt_file ev a))
          (saver_restore (recording ops) (ckpt_file ev a)) w)"
    by (rule session_call_sim) (simp add: recording_fields)
  have init: "session_call Run_initializer (run_initializer ops) (forget w)
      = forget_outcome (session_call Run_initializer (run_initializer (recording ops)) w)"
    by (rule session_call_sim) (simp add: recording_fields)
  have pass: "session_call (Run_init_pass feed) (run_init_pass ops feed) (forget u)
      = forget_outcome (session_call (Run_init_pass feed) (run_init_pass (recording ops) feed) u)"
    for feed and u :: "('a \<times> call list, 'b) world"
    by (rule session_call_sim) (simp add: recording_fields)
  show ?thesis
    unfolding init_block_def restore init
    by (auto simp: forget_outcome_def pass split: sum.splits list.splits)
qed

lemma train_step_sim:
  "train_step ops a d (forget w) = forget_outcome (train_step (recording ops) a d w)"
proof -
  obtain s cs where sc: "w_sess w = (s, cs)" by (cases "w_sess w")
  show ?thesis
    by (auto simp: train_step_def Let_def sc recording_fields forget_outcome_def split: sum.splits)
qed

lemma draw_sample_sim:
  "draw_sample ops a i (forget w) = forget_outcome (draw_sample (recording ops) a i w)"
proof -
  obtain s cs where sc: "w_sess w = (s, cs)" by (cases "w_sess w")
  show ?thesis
    by (auto simp: draw_sample_def sc sample_from_model_recording_eq forget_outcome_def
        split: sum.splits)
qed

lemma for_each_forget:
  assumes "\<And>i u. body' i (forget u) = forget_outcome (body i u)"
  shows "for_each body' xs (forget w) = forget_outcome (for_each body xs w)"
proof (induction xs arbitrary: w)
  case Nil
  then show ?case by (simp add: forget_outcome_def)
next
  case (Cons i xs)
  show ?case
  proof (cases "body i w")
    case (Inl x)
    then show ?thesis by (cases x) (simp add: assms forget_outcome_def)
  next
    case (Inr u)
    then show ?thesis by (simp add: assms Cons.IH forget_outcome_def)
  qed
qed

lemma save_block_sim:
  "save_block ev ops a epoch (forget w) = forget_outcome (save_block ev (recording ops) a epoch w)"
proof -
  have loop: "for_each (draw_sample ops a) xs (forget u)
      = forget_outcome (for_each (draw_sample (recording ops) a) xs u)"
    for xs and u :: "('a \<times> call list, 'b) world"
    by (rule for_each_forget) (rule draw_sample_sim)
  have start: "(forget w)\<lparr>w_sample_x := []\<rparr> = forget (w\<lparr>w_sample_x := []\<rparr>)" by simp
  show ?thesis
    unfolding save_block_def start loop
    by (auto simp: forget_outcome_def split: sum.splits)
qed

lemma epoch_body_sim:
  "epoch_body ev ops a stream epoch (forget w)
     = forget_outcome (epoch_body ev (recording ops) a stream epoch w)"
proof -
  let ?rec = "if epoch = 0 then init_block ev (recording ops) a (stream epoch) w
              else Inr (stream epoch, w)"
  let ?plain = "if epoch = 0 then init_block ev ops a (stream epoch) (forget w)
                else Inr (stream epoch, forget w)"
  have start: "?plain = map_sum (map_prod id forget) (map_prod id forget) ?rec"
    by (simp add: init_block_sim)
  show ?thesis
  proof (cases ?rec)
    case (Inl x)
    obtain e u where x: "x = (e, u)" by (cases x)
    have "?plain = Inl (e, forget u)" using start Inl x by simp
    then show ?thesis
      using Inl x unfolding epoch_body_def by (simp add: forget_outcome_def)
  next
    case (Inr y)
    obtain it w1 where y: "y = (it, w1)" by (cases y)
    have plain: "?plain = Inr (it, forget w1)" using start Inr y by simp
    have loop: "for_each (train_step ops a) it ((forget w1)\<lparr>w_losses := []\<rparr>)
        = forget_outcome (for_each (train_step (recording ops) a) it (w1\<lparr>w_losses := []\<rparr>))"
      using for_each_forget[where body'="train_step ops a" and body="train_step (recording ops) a"
          and xs=it and w="w1\<lparr>w_losses := []\<rparr>", OF train_step_sim]
      by simp
    show ?thesis
    proof (cases "for_each (train_step (recording ops) a) it (w1\<lparr>w_losses := []\<rparr>)")
      case l: (Inl x)
      obtain e u where x: "x = (e, u)" by (cases x)
      show ?thesis
        unfolding epoch_body_def plain Inr y
        by (simp add: loop l x forget_outcome_def)
    next
      case r: (Inr w2)
      let ?w3 = "log_event (Report epoch (np_mean (w_losses w2))) w2"
      have tail: "(if save_interval a = 0 then Inl (ZeroDivisionError, forget ?w3)
                   else if int epoch mod save_interval a = 0 then save_block ev ops a epoch (forget ?w3)
                   else Inr (forget ?w3))
          = forget_outcome (if save_interval a = 0 then Inl (ZeroDivisionError, ?w3)
                   else if int epoch mod save_interval a = 0
                     then save_block ev (recording ops) a epoch ?w3
                   else Inr ?w3)"
        unfolding save_block_sim by (simp add: forget_outcome_def)
      have lp: "for_each (train_step ops a) it ((forget w1)\<lparr>w_losses := []\<rparr>) = Inr (forget w2)"
        using loop r by (simp add: forget_outcome_def)
      have lhs: "epoch_body ev ops a stream epoch (forget w)
          = (if save_interval a = 0 then Inl (ZeroDivisionError, forget ?w3)
             else if int epoch mod save_interval a = 0 then save_block ev ops a epoch (forget ?w3)
             else Inr (forget ?w3))"
        unfolding epoch_body_def plain by (simp add: lp Let_def)
      have rhs: "epoch_body ev (recording ops) a stream epoch w
          = (if save_interval a = 0 then Inl (ZeroDivisionError, ?w3)
             else if int epoch mod save_interval a = 0
               then save_block ev (recording ops) a epoch ?w3
             else Inr ?w3)"
        unfolding epoch_body_def Inr y by (simp add: r Let_def)
      show ?thesis
        unfolding lhs rhs by (rule tail)
    qed
  qed
qed

text \<open>
  A run with the recording session is the run with the session it wraps, step for step:
  the same outcome, the same events, the same rate, the same session underneath.
\<close>

lemma recording_faithful:
  "train_py ev ops a stream s0 = forget_outcome (train_py ev (recording ops) a stream (s0, cs))"
proof -
  have blank: "blank_world a s0 = forget (blank_world a (s0, cs))"
    by (simp add: blank_world_def forget_def)
  have prep: "prepare_dir ev a (forget u) = forget_outcome (prepare_dir ev a u)"
    for u :: "('a \<times> call list, 'b) world"
    by (simp add: prepare_dir_def forget_outcome_def split: option.splits)
  have loop: "for_each (epoch_body ev ops a stream) xs (forget u)
      = forget_outcome (for_each (epoch_body ev (recording ops) a stream) xs u)"
    for xs and u :: "('a \<times> call list, 'b) world"
    by (rule for_each_forget) (rule epoch_body_sim)
  have opened: "log_event Open_session (forget u) = forget (log_event Open_session u)"
    for u :: "('a \<times> call list, 'b) world"
    by simp
  show ?thesis
    unfolding train_py_def blank prep
    by (auto simp: opened loop forget_outcome_def simp del: forget_simps(5)
        split: option.splits sum.splits)
qed

section \<open>The shape of the calls of a run\<close>

lemma rates_received_append:
  "rates_received (xs @ ys) = rates_received xs @ rates_received ys"
  by (induction xs rule: rates_received.induct) simp_all

lemma rates_received_train_calls:
  "rates_received (train_calls a m ds) =
     map (\<lambda>t. learning_rate a * lr_decay a ^ Suc t) [m..<m + length ds]"
proof (induction ds arbitrary: m)
  case Nil
  then show ?case by simp
next
  case (Cons d ds)
  have "[m..<m + length (d # ds)] = m # [Suc m..<Suc m + length ds]"
    using upt_conv_Cons[of m "m + length (d # ds)"] by simp
  then show ?case by (simp add: Cons.IH del: upt_Suc)
qed

lemma rates_received_expected:
  "rates_received (expected_calls ev a stream k) =
     map (\<lambda>t. learning_rate a * lr_decay a ^ Suc t) [0..<length (batches_before a stream k)]"
proof (cases "k = 0")
  case True
  then show ?thesis by (simp add: expected_calls_def batches_before_def)
next
  case False
  have "rates_received (init_calls ev a stream) = []" by (simp add: init_calls_def)
  then show ?thesis
    using False rates_received_train_calls[of a 0 "batches_before a stream k"]
    by (simp add: expected_calls_def rates_received_append)
qed

lemma prefix_of_map_upt:
  assumes "prefix xs (map f [0..<n])"
  shows "xs = map f [0..<length xs]"
proof -
  obtain zs where zs: "map f [0..<n] = xs @ zs" using assms by (auto simp: prefix_def)
  then have "length xs \<le> n"
    by (metis length_append length_map length_upt le_add1 diff_zero)
  have "xs = take (length xs) (map f [0..<n])" by (simp add: zs)
  also have "\<dots> = map f (take (length xs) [0..<n])" by (simp add: take_map)
  also have "take (length xs) [0..<n] = [0..<length xs]"
    using \<open>length xs \<le> n\<close> by (simp add: take_upt)
  finally show ?thesis .
qed

lemma filter_train_calls:
  "filter is_train_call (train_calls a m ds) = train_calls a m ds"
  "filter is_init_pass_call (train_calls a m ds) = []"
  by (induction ds arbitrary: m) simp_all




lemma filter_train_expected:
  "filter is_train_call (expected_calls ev a stream k) = train_calls a 0 (batches_before a stream k)"
proof (cases "k = 0")
  case True
  then show ?thesis by (simp add: expected_calls_def batches_before_def)
next
  case False
  have "filter is_train_call (init_calls ev a stream) = []" by (simp add: init_calls_def)
  then show ?thesis using False by (simp add: expected_calls_def filter_train_calls)
qed

lemma rates_received_filter: "rates_received (filter is_train_call cs) = rates_received cs"
  by (induction cs rule: rates_received.induct) simp_all




lemma calls_of_a_run:
  "prefix (calls (final_world (train_py ev (recording ops) a stream (s0, []))))
     (expected_calls ev a stream (nat (max_epochs a)))"
  using session_protocol[where ev=ev and ops=ops and a=a and stream=stream and ?s0.0=s0]
  by (auto simp: at_epoch_def split: sum.splits)

lemma calls_of_a_finished_run:
  assumes "train_py ev (recording ops) a stream (s0, []) = Inr w"
  shows "calls w = expected_calls ev a stream (nat (max_epochs a))"
    and "w_lr w = learning_rate a * lr_decay a ^ length (batches_before a stream (nat (max_epochs a)))"
  using session_protocol[where ev=ev and ops=ops and a=a and stream=stream and ?s0.0=s0] assms by (simp_all add: at_epoch_def)

section \<open>The learning rate\<close>

text \<open>
  Claim C7. The session is wrapped so that it records every call with the arguments it
  receives. Then, whatever the session does, whatever the batches are and however they
  are spread over the epochs, the rate that the \<open>t\<close>-th training call of a run receives
  (\<open>t = 1, 2, ...\<close>) is \<open>learning_rate * lr_decay ^ t\<close>: the factor is applied before
  every step and nothing else changes the rate. In a run that ends without an exception
  there is one training call for every batch that is not used for the init pass, in the
  order of the stream, each with its batch split over the devices and with the rate of its
  step, and at the end the variable \<^verbatim>\<open>lr\<close> holds \<open>learning_rate * lr_decay ^ t\<close> for the
  number \<open>t\<close> of these batches.
\<close>

theorem learning_rate_decay:
  "rates_received (calls (final_world (train_py ev (recording ops) a stream (s0, [])))) =
     map (\<lambda>t. learning_rate a * lr_decay a ^ Suc t)
       [0..<length (rates_received (calls (final_world (train_py ev (recording ops) a stream (s0, [])))))]
   \<and> (\<forall>w. train_py ev (recording ops) a stream (s0, []) = Inr w \<longrightarrow>
         filter is_train_call (calls w)
           = train_calls a 0 (batches_before a stream (nat (max_epochs a)))
         \<and> w_lr w = learning_rate a * lr_decay a ^ length (batches_before a stream (nat (max_epochs a))))"
proof -
  let ?cs = "calls (final_world (train_py ev (recording ops) a stream (s0, [])))"
  let ?f = "\<lambda>t. learning_rate a * lr_decay a ^ Suc t"
  obtain zs where zs: "expected_calls ev a stream (nat (max_epochs a)) = ?cs @ zs"
    using calls_of_a_run[where ev=ev and ops=ops and a=a and stream=stream and ?s0.0=s0] by (auto simp: prefix_def)
  have "prefix (rates_received ?cs) (rates_received (expected_calls ev a stream (nat (max_epochs a))))"
    unfolding zs rates_received_append by simp
  then have "prefix (rates_received ?cs)
      (map ?f [0..<length (batches_before a stream (nat (max_epochs a)))])"
    by (simp only: rates_received_expected)
  then have rates: "rates_received ?cs = map ?f [0..<length (rates_received ?cs)]"
    by (rule prefix_of_map_upt)
  have fin: "filter is_train_call (calls w)
           = train_calls a 0 (batches_before a stream (nat (max_epochs a)))
         \<and> w_lr w = learning_rate a * lr_decay a ^ length (batches_before a stream (nat (max_epochs a)))"
    if "train_py ev (recording ops) a stream (s0, []) = Inr w" for w
    using calls_of_a_finished_run[OF that] by (simp add: filter_train_expected)
  show ?thesis
    using rates fin by (intro conjI allI impI) simp_all
qed

section \<open>Concrete runs\<close>

lemma sample_from_model_total:
  fixes node :: "('v::zero, 's) node"
  assumes "\<forall>x s. \<exists>v s'. node x s = Inr (v, s')" and "0 < nr_gpu a"
  shows "\<exists>images s'. sample_from_model node a s = Inr (images, s')"
proof -
  obtain st where st: "sample_loops node (nat (nr_gpu a)) (obs_shape ! 0) (obs_shape ! 1) s = Inr st"
    using sample_loops_total[OF assms(1)] by blast
  have "length (x_gen st) = nat (nr_gpu a)"
    using scanning_loops[OF st] by (simp add: scanning_def)
  then have "x_gen st \<noteq> []" using assms(2) by auto
  then show ?thesis
    unfolding sample_from_model_def st by (simp add: np_concatenate_def)
qed

lemma quiet_sample:
  assumes "0 < nr_gpu a"
  shows "\<exists>images. \<forall>cs. sample_from_model (run_new_x_gen (recording quiet_ops)) a ((), cs)
           = Inr (images, ((), cs))"
proof -
  have "\<forall>x s. \<exists>v s'. run_new_x_gen quiet_ops x s = Inr (v, s')"
    by (simp add: quiet_ops_def)
  then obtain images s' where "sample_from_model (run_new_x_gen quiet_ops) a () = Inr (images, s')"
    using sample_from_model_total[of "run_new_x_gen quiet_ops" a "()"] assms by auto
  then have "\<forall>cs. sample_from_model (run_new_x_gen (recording quiet_ops)) a ((), cs)
           = Inr (images, ((), cs))"
    by (simp add: sample_from_model_recording_eq)
  then show ?thesis by (rule exI[of _ images])
qed

lemma quiet_ops_fields:
  "run_initializer quiet_ops = Inr" "saver_restore quiet_ops = (\<lambda>f. Inr)"
  "run_init_pass quiet_ops = (\<lambda>feed. Inr)" "run_train quiet_ops = (\<lambda>feed rate s. Inr (0, s))"
  by (simp_all add: quiet_ops_def)

lemma quiet_env_fields:
  "graph_build quiet_env = (\<lambda>a. None)" "path_exists quiet_env = (\<lambda>p. True)"
  "makedirs quiet_env = (\<lambda>p. None)" "params_tail quiet_env = ''Montezuma.ckpt''"
  "test_bpd_tail quiet_env = ''Montezuma.npz''"
  by (simp_all add: quiet_env_def)

lemma short_ranges: "[0..<(2::nat)] = [0, Suc 0]" "[0..<(1::nat)] = [0]" "[0..<Suc 0] = [0]"
  "[1..<(2::nat)] = [Suc 0]" "[Suc 0..<2] = [Suc 0]"
  by (simp_all add: upt_conv_Cons)

lemma decimal_small: "decimal 0 = ''0''" "decimal (Suc 0) = ''1''"
  by (simp_all add: decimal.simps digit_char_def)

lemmas run_defs = train_py_def graph_error_def blank_world_def prepare_dir_def os_path_exists_def
  os_makedirs_def epoch_body_def init_block_def session_call_def log_event_def make_feed_dict_def
  scaled_def np_split_def train_step_def save_block_def draw_sample_def np_concatenate_def
  np_mean_def recording_fields quiet_ops_fields quiet_env_fields sample_png_def sample_npz_def
  ckpt_file_def test_bpd_file_def os_path_join_def decimal_small short_ranges calls_def Let_def

lemma run_two_epochs:
  "\<exists>images w. train_py quiet_env (recording quiet_ops) two_epochs tiny_stream ((), []) = Inr w
     \<and> w_trace w =
        [Open_session, Run_initializer, Run_init_pass (Feed_x_init [[- 1]]),
         Run_train (Feed_xs [[[1]]]) (learning_rate two_epochs * lr_decay two_epochs),
         Report 0 (Some 0),
         Savefig ''data/Montezuma_sample0.png'' (take 100 images),
         Savez ''data/Montezuma_sample0.npz'' [images],
         Saver_save ''data/params_Montezuma.ckpt'',
         Savez ''data/test_bpd_Montezuma.npz'' [],
         Run_train (Feed_xs [[[- 1]]]) (learning_rate two_epochs * lr_decay two_epochs * lr_decay two_epochs),
         Run_train (Feed_xs [[[1]]])
           (learning_rate two_epochs * lr_decay two_epochs * lr_decay two_epochs * lr_decay two_epochs),
         Report 1 (Some 0)]
     \<and> calls w =
        [Call_initializer, Call_init_pass (Feed_x_init [[- 1]]),
         Call_train (Feed_xs [[[1]]]) (learning_rate two_epochs * lr_decay two_epochs),
         Call_train (Feed_xs [[[- 1]]]) (learning_rate two_epochs * lr_decay two_epochs * lr_decay two_epochs),
         Call_train (Feed_xs [[[1]]])
           (learning_rate two_epochs * lr_decay two_epochs * lr_decay two_epochs * lr_decay two_epochs)]"
proof -
  have fields: "nr_gpu two_epochs = 1" "max_epochs two_epochs = 2" "load_params two_epochs = False"
    "save_interval two_epochs = 20" "num_samples two_epochs = 1" "save_dir two_epochs = ''data''"
    by (simp_all add: two_epochs_def default_args_def)
  obtain images where smp: "\<And>cs. sample_from_model (run_new_x_gen (recording quiet_ops)) two_epochs ((), cs)
      = Inr (images, ((), cs))"
    using quiet_sample[of two_epochs] fields(1) by auto
  show ?thesis
    by (rule exI[of _ images]) (simp add: run_defs fields smp tiny_stream_def)
qed


theorem learning_rate_decay_witness:
  "\<exists>w. train_py quiet_env (recording quiet_ops) two_epochs tiny_stream ((), []) = Inr w
     \<and> rates_received (calls w) =
         [learning_rate two_epochs * lr_decay two_epochs,
          learning_rate two_epochs * lr_decay two_epochs ^ 2,
          learning_rate two_epochs * lr_decay two_epochs ^ 3]
     \<and> w_lr w = learning_rate two_epochs * lr_decay two_epochs ^ 3
     \<and> learning_rate two_epochs = 0.001 \<and> lr_decay two_epochs = 0.999995"
proof -
  obtain w where run: "train_py quiet_env (recording quiet_ops) two_epochs tiny_stream ((), []) = Inr w"
    using run_two_epochs by blast
  have fields: "max_epochs two_epochs = 2" "load_params two_epochs = False"
    by (simp_all add: two_epochs_def default_args_def)
  have v1: "learning_rate two_epochs = 0.001" and v2: "lr_decay two_epochs = 0.999995"
    by (simp_all add: two_epochs_def default_args_def)
  have bs: "batches_before two_epochs tiny_stream (nat (max_epochs two_epochs))
      = [[[255]], [[0]], [[255]]]"
    by (simp add: batches_before_def fields tiny_stream_def short_ranges)
  from learning_rate_decay[where ev=quiet_env and ops=quiet_ops and a=two_epochs
      and stream=tiny_stream and ?s0.0="()"] run
  have tr: "filter is_train_call (calls w)
      = train_calls two_epochs 0 (batches_before two_epochs tiny_stream (nat (max_epochs two_epochs)))"
    and lr: "w_lr w = learning_rate two_epochs * lr_decay two_epochs
        ^ length (batches_before two_epochs tiny_stream (nat (max_epochs two_epochs)))"
    by simp_all
  have "rates_received (calls w) = rates_received (filter is_train_call (calls w))"
    by (simp add: rates_received_filter)
  also have "\<dots> = [learning_rate two_epochs * lr_decay two_epochs,
          learning_rate two_epochs * lr_decay two_epochs ^ 2,
          learning_rate two_epochs * lr_decay two_epochs ^ 3]"
    unfolding tr bs by (simp add: numeral_2_eq_2 numeral_3_eq_3)
  finally have rates: "rates_received (calls w) =
         [learning_rate two_epochs * lr_decay two_epochs,
          learning_rate two_epochs * lr_decay two_epochs ^ 2,
          learning_rate two_epochs * lr_decay two_epochs ^ 3]" .
  have lrw: "w_lr w = learning_rate two_epochs * lr_decay two_epochs ^ 3"
    unfolding lr bs by (simp add: numeral_3_eq_3)
  show ?thesis
    by (rule exI[of _ w], intro conjI) (fact run rates lrw v1 v2)+
qed

section \<open>The order of the init pass\<close>




end
